theory Spec2Isabelle
  imports Main "HOL-Library.Word"
begin

section \<open>Python values\<close>

text \<open>
  The values that \<^verbatim>\<open>file_methods.py\<close> stores and loads: what msgpack can serialise, plus
  the \<^verbatim>\<open>FrozenDict\<close> subclass of \<^verbatim>\<open>dict\<close> that \<^verbatim>\<open>Serialized_Dict\<close> builds on decoding.
  A \<^verbatim>\<open>str\<close> is held as its UTF-8 bytes, a \<^verbatim>\<open>float\<close> as its IEEE-754 binary64 bit pattern,
  a \<^verbatim>\<open>dict\<close> as its items in insertion order. numpy arrays are not values of this type.
\<close>

type_synonym byte = "8 word"
type_synonym bytes = "byte list"

datatype pyval =
    PNone
  | PBool bool
  | PInt int
  | PFloat "64 word"
  | PStr string
  | PBytes bytes
  | PList "pyval list"
  | PTuple "pyval list"
  | PDict "(pyval \<times> pyval) list"
  | PFrozenDict "(pyval \<times> pyval) list"

text \<open>
  Exceptions. \<open>Exception\<close> is the bare \<^verbatim>\<open>Exception(...)\<close> raised by
  \<^verbatim>\<open>Serialized_Dict.__init__\<close>; \<open>UnpackValueError\<close>, \<open>ExtraData\<close> and \<open>FormatError\<close> are
  msgpack's. \<open>Unmodelled\<close> is not a Python exception: it marks an input on which this
  development does not say what the library does.
\<close>

datatype exn =
    IOError | KeyError | TypeError | AttributeError | ValueError | IndexError
  | OverflowError | NotImplementedError | UnicodeDecodeError | Exception
  | UnpackValueError | ExtraData | FormatError
  | Unmodelled

definition string_bytes :: "string \<Rightarrow> bytes" where
  "string_bytes s = map (\<lambda>c. of_nat (of_char c)) s"

definition bytes_string :: "bytes \<Rightarrow> string" where
  "bytes_string bs = map (\<lambda>b. char_of (unat b)) bs"

text \<open>Truthiness, as \<^verbatim>\<open>not x\<close> tests it.\<close>

fun truthy :: "pyval \<Rightarrow> bool" where
  "truthy PNone = False"
| "truthy (PBool b) = b"
| "truthy (PInt i) = (i \<noteq> 0)"
| "truthy (PFloat w) = (w \<noteq> 0 \<and> w \<noteq> 0x8000000000000000)"
| "truthy (PStr s) = (s \<noteq> [])"
| "truthy (PBytes b) = (b \<noteq> [])"
| "truthy (PList xs) = (xs \<noteq> [])"
| "truthy (PTuple xs) = (xs \<noteq> [])"
| "truthy (PDict kvs) = (kvs \<noteq> [])"
| "truthy (PFrozenDict kvs) = (kvs \<noteq> [])"

subsection \<open>dict operations\<close>

text \<open>
  Keys are compared with HOL equality. Python's key equality differs only across numeric
  types (\<^verbatim>\<open>1 == True == 1.0\<close>); it is the same on \<^verbatim>\<open>str\<close> and \<^verbatim>\<open>bytes\<close> keys, the only
  keys a decoded mapping has in this development.
\<close>

fun hashable :: "pyval \<Rightarrow> bool" where
  "hashable (PList xs) = False"
| "hashable (PDict kvs) = False"
| "hashable (PFrozenDict kvs) = False"
| "hashable (PTuple xs) = list_all hashable xs"
| "hashable v = True"

fun dict_setitem :: "(pyval \<times> pyval) list \<Rightarrow> pyval \<Rightarrow> pyval \<Rightarrow> (pyval \<times> pyval) list" where
  "dict_setitem [] k v = [(k, v)]"
| "dict_setitem ((k', v') # kvs) k v =
     (if k' = k then (k', v) # kvs else (k', v') # dict_setitem kvs k v)"

definition dict_getitem :: "(pyval \<times> pyval) list \<Rightarrow> pyval \<Rightarrow> exn + pyval" where
  "dict_getitem kvs k =
     (if \<not> hashable k then Inl TypeError
      else case map_of kvs k of None \<Rightarrow> Inl KeyError | Some v \<Rightarrow> Inr v)"

definition dict_delitem :: "(pyval \<times> pyval) list \<Rightarrow> pyval \<Rightarrow> exn + (pyval \<times> pyval) list" where
  "dict_delitem kvs k =
     (if \<not> hashable k then Inl TypeError
      else case map_of kvs k of None \<Rightarrow> Inl KeyError
           | Some v \<Rightarrow> Inr (filter (\<lambda>kv. fst kv \<noteq> k) kvs))"

text \<open>\<^verbatim>\<open>d.update(other)\<close> for a mapping \<^verbatim>\<open>other\<close>: one \<^verbatim>\<open>d[k] = v\<close> per item, in order.\<close>

definition dict_update :: "(pyval \<times> pyval) list \<Rightarrow> (pyval \<times> pyval) list \<Rightarrow> (pyval \<times> pyval) list" where
  "dict_update d other = foldl (\<lambda>acc kv. dict_setitem acc (fst kv) (snd kv)) d other"

section \<open>The msgpack library\<close>

text \<open>
  msgpack is an external library; the repository only calls it. Its packer and unpacker
  are modelled here after the MessagePack format and the library's Python implementation,
  for the calls the repository makes (\<^verbatim>\<open>use_bin_type=True\<close> when packing; \<^verbatim>\<open>raw\<close>,
  \<^verbatim>\<open>use_list\<close> and \<^verbatim>\<open>object_hook\<close> when unpacking). Outside the model, with the outcome
  \<open>Unmodelled\<close>: extension types and 32-bit floats in the input, map keys that are not
  \<^verbatim>\<open>str\<close> or \<^verbatim>\<open>bytes\<close>, and input nested deeper than \<open>nest_limit\<close>.
\<close>

subsection \<open>Big-endian integers\<close>

fun be_bytes :: "nat \<Rightarrow> nat \<Rightarrow> bytes" where
  "be_bytes 0 x = []"
| "be_bytes (Suc n) x = of_nat (x div 256 ^ n) # be_bytes n x"

definition be_nat :: "bytes \<Rightarrow> nat" where
  "be_nat bs = foldl (\<lambda>a b. a * 256 + unat b) 0 bs"

text \<open>Two's complement, \<open>n\<close> bytes wide.\<close>

definition be_signed :: "nat \<Rightarrow> int \<Rightarrow> bytes" where
  "be_signed n i = be_bytes n (nat (i mod 256 ^ n))"

definition be_int :: "bytes \<Rightarrow> int" where
  "be_int bs =
     (let u = int (be_nat bs); m = 256 ^ length bs
      in if 2 * u < m then u else u - m)"

subsection \<open>Packer\<close>

definition nest_limit :: nat where
  "nest_limit = 511"

definition pack_int :: "int \<Rightarrow> exn + bytes" where
  "pack_int i =
     (if 0 \<le> i \<and> i < 0x80 then Inr (be_signed 1 i)
      else if - 0x20 \<le> i \<and> i < 0 then Inr (be_signed 1 i)
      else if 0x80 \<le> i \<and> i \<le> 0xff then Inr (0xcc # be_bytes 1 (nat i))
      else if - 0x80 \<le> i \<and> i < 0 then Inr (0xd0 # be_signed 1 i)
      else if 0xff < i \<and> i \<le> 0xffff then Inr (0xcd # be_bytes 2 (nat i))
      else if - 0x8000 \<le> i \<and> i < - 0x80 then Inr (0xd1 # be_signed 2 i)
      else if 0xffff < i \<and> i \<le> 0xffffffff then Inr (0xce # be_bytes 4 (nat i))
      else if - 0x80000000 \<le> i \<and> i < - 0x8000 then Inr (0xd2 # be_signed 4 i)
      else if 0xffffffff < i \<and> i \<le> 0xffffffffffffffff then Inr (0xcf # be_bytes 8 (nat i))
      else if - 0x8000000000000000 \<le> i \<and> i < - 0x80000000 then Inr (0xd3 # be_signed 8 i)
      else Inl OverflowError)"

definition pack_raw_header :: "nat \<Rightarrow> exn + bytes" where
  "pack_raw_header n =
     (if n \<le> 0x1f then Inr [of_nat (0xa0 + n)]
      else if n \<le> 0xff then Inr (0xd9 # be_bytes 1 n)
      else if n \<le> 0xffff then Inr (0xda # be_bytes 2 n)
      else if n \<le> 0xffffffff then Inr (0xdb # be_bytes 4 n)
      else Inl ValueError)"

definition pack_bin_header :: "nat \<Rightarrow> exn + bytes" where
  "pack_bin_header n =
     (if n \<le> 0xff then Inr (0xc4 # be_bytes 1 n)
      else if n \<le> 0xffff then Inr (0xc5 # be_bytes 2 n)
      else if n \<le> 0xffffffff then Inr (0xc6 # be_bytes 4 n)
      else Inl ValueError)"

definition pack_array_header :: "nat \<Rightarrow> exn + bytes" where
  "pack_array_header n =
     (if n \<le> 0x0f then Inr [of_nat (0x90 + n)]
      else if n \<le> 0xffff then Inr (0xdc # be_bytes 2 n)
      else if n \<le> 0xffffffff then Inr (0xdd # be_bytes 4 n)
      else Inl ValueError)"

definition pack_map_header :: "nat \<Rightarrow> exn + bytes" where
  "pack_map_header n =
     (if n \<le> 0x0f then Inr [of_nat (0x80 + n)]
      else if n \<le> 0xffff then Inr (0xde # be_bytes 2 n)
      else if n \<le> 0xffffffff then Inr (0xdf # be_bytes 4 n)
      else Inl ValueError)"

text \<open>Sequencing of packer results: the first exception wins, else the bytes are joined.\<close>

fun join_packed :: "(exn + bytes) list \<Rightarrow> exn + bytes" where
  "join_packed [] = Inr []"
| "join_packed (Inl e # rs) = Inl e"
| "join_packed (Inr b # rs) = (case join_packed rs of Inl e \<Rightarrow> Inl e | Inr bs \<Rightarrow> Inr (b @ bs))"

text \<open>
  \<^verbatim>\<open>Packer._pack(obj, nest_limit)\<close>. The \<^verbatim>\<open>default\<close> hook is consulted once for an object
  the packer cannot serialise, which among the values of \<open>pyval\<close> is only an integer out
  of the 64-bit range: a hook that hands the object back unchanged makes the retry fail
  the same way.
\<close>

fun pack :: "(pyval \<Rightarrow> pyval) option \<Rightarrow> nat \<Rightarrow> pyval \<Rightarrow> exn + bytes" where
  "pack dflt n PNone = Inr [0xc0]"
| "pack dflt n (PBool b) = Inr [if b then 0xc3 else 0xc2]"
| "pack dflt n (PInt i) =
     (case pack_int i of
        Inr bs \<Rightarrow> Inr bs
      | Inl e \<Rightarrow>
          (case dflt of
             None \<Rightarrow> Inl e
           | Some f \<Rightarrow> if f (PInt i) = PInt i then Inl e else Inl Unmodelled))"
| "pack dflt n (PBytes b) = join_packed [pack_bin_header (length b), Inr b]"
| "pack dflt n (PStr s) = join_packed [pack_raw_header (length s), Inr (string_bytes s)]"
| "pack dflt n (PFloat w) = Inr (0xcb # be_bytes 8 (unat w))"
| "pack dflt n (PList xs) =
     (case n of
        0 \<Rightarrow> (if xs = [] then pack_array_header 0 else Inl ValueError)
      | Suc m \<Rightarrow> join_packed (pack_array_header (length xs) # map (pack dflt m) xs))"
| "pack dflt n (PTuple xs) =
     (case n of
        0 \<Rightarrow> (if xs = [] then pack_array_header 0 else Inl ValueError)
      | Suc m \<Rightarrow> join_packed (pack_array_header (length xs) # map (pack dflt m) xs))"
| "pack dflt n (PDict kvs) =
     (case n of
        0 \<Rightarrow> (if kvs = [] then pack_map_header 0 else Inl ValueError)
      | Suc m \<Rightarrow>
          join_packed (pack_map_header (length kvs) #
            concat (map (\<lambda>kv. [pack dflt m (fst kv), pack dflt m (snd kv)]) kvs)))"
| "pack dflt n (PFrozenDict kvs) =
     (case n of
        0 \<Rightarrow> (if kvs = [] then pack_map_header 0 else Inl ValueError)
      | Suc m \<Rightarrow>
          join_packed (pack_map_header (length kvs) #
            concat (map (\<lambda>kv. [pack dflt m (fst kv), pack dflt m (snd kv)]) kvs)))"

text \<open>\<^verbatim>\<open>msgpack.dumps(o, use_bin_type=True)\<close> and \<^verbatim>\<open>Packer(use_bin_type=True).pack(o)\<close>.\<close>

definition msgpack_dumps :: "pyval \<Rightarrow> exn + bytes" where
  "msgpack_dumps v = pack None nest_limit v"

subsection \<open>Unpacker\<close>

datatype 'a parsed = Ok 'a bytes | OutOfData | Raise exn

datatype token = TVal pyval | TStr nat | TBin nat | TArray nat | TMap nat

record unpack_opts =
  raw :: bool
  use_list :: bool
  object_hook :: "(pyval \<Rightarrow> pyval) option"

definition max_len :: nat where
  "max_len = 2147483647"

definition read_be :: "nat \<Rightarrow> bytes \<Rightarrow> nat parsed" where
  "read_be n bs = (if length bs < n then OutOfData else Ok (be_nat (take n bs)) (drop n bs))"

definition read_signed :: "nat \<Rightarrow> bytes \<Rightarrow> token parsed" where
  "read_signed n bs =
     (if length bs < n then OutOfData else Ok (TVal (PInt (be_int (take n bs)))) (drop n bs))"

definition read_len :: "(nat \<Rightarrow> token) \<Rightarrow> nat \<Rightarrow> bytes \<Rightarrow> token parsed" where
  "read_len mk n bs =
     (case read_be n bs of
        Ok l r \<Rightarrow> if l > max_len then Raise Unmodelled else Ok (mk l) r
      | OutOfData \<Rightarrow> OutOfData
      | Raise e \<Rightarrow> Raise e)"

definition read_uint :: "nat \<Rightarrow> bytes \<Rightarrow> token parsed" where
  "read_uint n bs =
     (case read_be n bs of
        Ok u r \<Rightarrow> Ok (TVal (PInt (int u))) r
      | OutOfData \<Rightarrow> OutOfData
      | Raise e \<Rightarrow> Raise e)"

definition read_float64 :: "bytes \<Rightarrow> token parsed" where
  "read_float64 bs =
     (case read_be 8 bs of
        Ok u r \<Rightarrow> Ok (TVal (PFloat (of_nat u))) r
      | OutOfData \<Rightarrow> OutOfData
      | Raise e \<Rightarrow> Raise e)"

text \<open>The first byte of an object selects its format.\<close>

definition read_header :: "bytes \<Rightarrow> token parsed" where
  "read_header bs =
     (case bs of
        [] \<Rightarrow> OutOfData
      | b # r \<Rightarrow>
          (let t = unat b in
           if t < 0x80 then Ok (TVal (PInt (int t))) r
           else if t < 0x90 then Ok (TMap (t - 0x80)) r
           else if t < 0xa0 then Ok (TArray (t - 0x90)) r
           else if t < 0xc0 then Ok (TStr (t - 0xa0)) r
           else if t = 0xc0 then Ok (TVal PNone) r
           else if t = 0xc1 then Raise FormatError
           else if t = 0xc2 then Ok (TVal (PBool False)) r
           else if t = 0xc3 then Ok (TVal (PBool True)) r
           else if t = 0xc4 then read_len TBin 1 r
           else if t = 0xc5 then read_len TBin 2 r
           else if t = 0xc6 then read_len TBin 4 r
           else if t < 0xcb then Raise Unmodelled
           else if t = 0xcb then read_float64 r
           else if t = 0xcc then read_uint 1 r
           else if t = 0xcd then read_uint 2 r
           else if t = 0xce then read_uint 4 r
           else if t = 0xcf then read_uint 8 r
           else if t = 0xd0 then read_signed 1 r
           else if t = 0xd1 then read_signed 2 r
           else if t = 0xd2 then read_signed 4 r
           else if t = 0xd3 then read_signed 8 r
           else if t < 0xd9 then Raise Unmodelled
           else if t = 0xd9 then read_len TStr 1 r
           else if t = 0xda then read_len TStr 2 r
           else if t = 0xdb then read_len TStr 4 r
           else if t = 0xdc then read_len TArray 2 r
           else if t = 0xdd then read_len TArray 4 r
           else if t = 0xde then read_len TMap 2 r
           else if t = 0xdf then read_len TMap 4 r
           else Ok (TVal (PInt (int t - 256))) r))"

text \<open>Python's strict UTF-8 decoder accepts exactly the well-formed sequences.\<close>

definition in_range :: "byte \<Rightarrow> byte \<Rightarrow> byte \<Rightarrow> bool" where
  "in_range lo hi b = (lo \<le> b \<and> b \<le> hi)"

fun utf8_valid :: "bytes \<Rightarrow> bool" where
  "utf8_valid [] = True"
| "utf8_valid (b # bs) =
     (if b \<le> 0x7f then utf8_valid bs
      else if in_range 0xc2 0xdf b then
        (case bs of
           c1 # r \<Rightarrow> in_range 0x80 0xbf c1 \<and> utf8_valid r
         | _ \<Rightarrow> False)
      else if in_range 0xe0 0xef b then
        (case bs of
           c1 # c2 # r \<Rightarrow>
             in_range (if b = 0xe0 then 0xa0 else 0x80) (if b = 0xed then 0x9f else 0xbf) c1
             \<and> in_range 0x80 0xbf c2 \<and> utf8_valid r
         | _ \<Rightarrow> False)
      else if in_range 0xf0 0xf4 b then
        (case bs of
           c1 # c2 # c3 # r \<Rightarrow>
             in_range (if b = 0xf0 then 0x90 else 0x80) (if b = 0xf4 then 0x8f else 0xbf) c1
             \<and> in_range 0x80 0xbf c2 \<and> in_range 0x80 0xbf c3 \<and> utf8_valid r
         | _ \<Rightarrow> False)
      else False)"

definition mk_array :: "unpack_opts \<Rightarrow> pyval list \<Rightarrow> pyval" where
  "mk_array opts xs = (if use_list opts then PList xs else PTuple xs)"

definition mk_map :: "unpack_opts \<Rightarrow> (pyval \<times> pyval) list \<Rightarrow> pyval" where
  "mk_map opts kvs = (case object_hook opts of None \<Rightarrow> PDict kvs | Some h \<Rightarrow> h (PDict kvs))"

fun is_key :: "pyval \<Rightarrow> bool" where
  "is_key (PStr s) = True"
| "is_key (PBytes b) = True"
| "is_key v = False"

text \<open>
  One object from the front of the input, and the input that is left. \<open>d\<close> counts the
  levels of nesting still allowed. A map is filled by \<^verbatim>\<open>ret[key] = value\<close>, so a repeated
  key keeps its first position and its last value.
\<close>

fun unpack :: "unpack_opts \<Rightarrow> nat \<Rightarrow> bytes \<Rightarrow> pyval parsed"
  and unpack_items :: "unpack_opts \<Rightarrow> nat \<Rightarrow> nat \<Rightarrow> bytes \<Rightarrow> pyval list parsed"
  and unpack_pairs ::
    "unpack_opts \<Rightarrow> nat \<Rightarrow> nat \<Rightarrow> bytes \<Rightarrow> (pyval \<times> pyval) list \<Rightarrow> (pyval \<times> pyval) list parsed"
where
  "unpack opts d bs =
     (case read_header bs of
        OutOfData \<Rightarrow> OutOfData
      | Raise e \<Rightarrow> Raise e
      | Ok tok r \<Rightarrow>
          (case tok of
             TVal v \<Rightarrow> Ok v r
           | TBin n \<Rightarrow>
               (if length r < n then OutOfData else Ok (PBytes (take n r)) (drop n r))
           | TStr n \<Rightarrow>
               (if length r < n then OutOfData
                else if raw opts then Ok (PBytes (take n r)) (drop n r)
                else if utf8_valid (take n r) then Ok (PStr (bytes_string (take n r))) (drop n r)
                else Raise UnicodeDecodeError)
           | TArray n \<Rightarrow>
               (case d of
                  0 \<Rightarrow> (if n = 0 then Ok (mk_array opts []) r else Raise Unmodelled)
                | Suc d' \<Rightarrow>
                    (case unpack_items opts d' n r of
                       Ok xs r' \<Rightarrow> Ok (mk_array opts xs) r'
                     | OutOfData \<Rightarrow> OutOfData
                     | Raise e \<Rightarrow> Raise e))
           | TMap n \<Rightarrow>
               (case d of
                  0 \<Rightarrow> (if n = 0 then Ok (mk_map opts []) r else Raise Unmodelled)
                | Suc d' \<Rightarrow>
                    (case unpack_pairs opts d' n r [] of
                       Ok kvs r' \<Rightarrow> Ok (mk_map opts kvs) r'
                     | OutOfData \<Rightarrow> OutOfData
                     | Raise e \<Rightarrow> Raise e))))"
| "unpack_items opts d 0 bs = Ok [] bs"
| "unpack_items opts d (Suc n) bs =
     (case unpack opts d bs of
        Ok v r \<Rightarrow>
          (case unpack_items opts d n r of
             Ok vs r' \<Rightarrow> Ok (v # vs) r'
           | OutOfData \<Rightarrow> OutOfData
           | Raise e \<Rightarrow> Raise e)
      | OutOfData \<Rightarrow> OutOfData
      | Raise e \<Rightarrow> Raise e)"
| "unpack_pairs opts d 0 bs acc = Ok acc bs"
| "unpack_pairs opts d (Suc n) bs acc =
     (case unpack opts d bs of
        Ok k r \<Rightarrow>
          (if \<not> is_key k then Raise Unmodelled
           else case unpack opts d r of
                  Ok v r' \<Rightarrow> unpack_pairs opts d n r' (dict_setitem acc k v)
                | OutOfData \<Rightarrow> OutOfData
                | Raise e \<Rightarrow> Raise e)
      | OutOfData \<Rightarrow> OutOfData
      | Raise e \<Rightarrow> Raise e)"

text \<open>
  \<^verbatim>\<open>msgpack.loads(b, ...)\<close> and \<^verbatim>\<open>msgpack.unpack(fh, ...)\<close> on a file holding \<open>b\<close>: exactly
  one object, nothing after it.
\<close>

definition msgpack_loads :: "unpack_opts \<Rightarrow> bytes \<Rightarrow> exn + pyval" where
  "msgpack_loads opts b =
     (case unpack opts nest_limit b of
        Ok v rest \<Rightarrow> if rest = [] then Inr v else Inl ExtraData
      | OutOfData \<Rightarrow> Inl UnpackValueError
      | Raise e \<Rightarrow> Inl e)"

section \<open>Operations on Python values used by the repository\<close>

text \<open>\<^verbatim>\<open>seq[k]\<close> on a list or a tuple: an integer index, negative ones counting from the end.\<close>

definition seq_index :: "nat \<Rightarrow> int \<Rightarrow> nat option" where
  "seq_index len i =
     (if 0 \<le> i \<and> i < int len then Some (nat i)
      else if i < 0 \<and> - int len \<le> i then Some (nat (int len + i))
      else None)"

definition seq_getitem :: "pyval list \<Rightarrow> pyval \<Rightarrow> exn + pyval" where
  "seq_getitem xs k =
     (case k of
        PInt i \<Rightarrow>
          (case seq_index (length xs) i of None \<Rightarrow> Inl IndexError | Some j \<Rightarrow> Inr (xs ! j))
      | PBool b \<Rightarrow>
          (case seq_index (length xs) (if b then 1 else 0) of
             None \<Rightarrow> Inl IndexError
           | Some j \<Rightarrow> Inr (xs ! j))
      | _ \<Rightarrow> Inl TypeError)"

text \<open>\<^verbatim>\<open>x[k]\<close>. Indexing into a \<^verbatim>\<open>str\<close> or \<^verbatim>\<open>bytes\<close> with an integer is not modelled.\<close>

fun py_getitem :: "pyval \<Rightarrow> pyval \<Rightarrow> exn + pyval" where
  "py_getitem (PDict kvs) k = dict_getitem kvs k"
| "py_getitem (PFrozenDict kvs) k = dict_getitem kvs k"
| "py_getitem (PList xs) k = seq_getitem xs k"
| "py_getitem (PTuple xs) k = seq_getitem xs k"
| "py_getitem (PStr s) k = (case k of PInt i \<Rightarrow> Inl Unmodelled | PBool b \<Rightarrow> Inl Unmodelled | _ \<Rightarrow> Inl TypeError)"
| "py_getitem (PBytes s) k = (case k of PInt i \<Rightarrow> Inl Unmodelled | PBool b \<Rightarrow> Inl Unmodelled | _ \<Rightarrow> Inl TypeError)"
| "py_getitem v k = Inl TypeError"




text \<open>
  \<^verbatim>\<open>a, b = x\<close>: iterating a mapping gives its keys, iterating \<^verbatim>\<open>bytes\<close> gives integers;
  iterating a \<^verbatim>\<open>str\<close> is not modelled.
\<close>

fun py_unpack2 :: "pyval \<Rightarrow> exn + (pyval \<times> pyval)" where
  "py_unpack2 (PTuple xs) = (case xs of [a, b] \<Rightarrow> Inr (a, b) | _ \<Rightarrow> Inl ValueError)"
| "py_unpack2 (PList xs) = (case xs of [a, b] \<Rightarrow> Inr (a, b) | _ \<Rightarrow> Inl ValueError)"
| "py_unpack2 (PDict kvs) = (case kvs of [a, b] \<Rightarrow> Inr (fst a, fst b) | _ \<Rightarrow> Inl ValueError)"
| "py_unpack2 (PFrozenDict kvs) = (case kvs of [a, b] \<Rightarrow> Inr (fst a, fst b) | _ \<Rightarrow> Inl ValueError)"
| "py_unpack2 (PBytes bs) = (case bs of [a, b] \<Rightarrow> Inr (PInt (uint a), PInt (uint b)) | _ \<Rightarrow> Inl ValueError)"
| "py_unpack2 (PStr s) = Inl Unmodelled"
| "py_unpack2 v = Inl TypeError"

section \<open>The file system\<close>

text \<open>
  Files by path. \<^verbatim>\<open>open(p, 'rb')\<close> raises \<^verbatim>\<open>IOError\<close> when there is no file at \<open>p\<close>;
  \<^verbatim>\<open>open(p, 'wb')\<close> creates the file or empties it. \<^verbatim>\<open>os.path.expanduser\<close> belongs to the
  environment.
\<close>

record os_env =
  files :: "string \<Rightarrow> bytes option"
  expanduser :: "string \<Rightarrow> string"

section \<open>load\_object, save\_object\<close>

text \<open>
  \<^verbatim>\<open>_load_object_legacy\<close> opens the file and calls \<^verbatim>\<open>pickle.load(fh, raw=True)\<close>. \<^verbatim>\<open>pickle.load\<close>
  has no parameter \<^verbatim>\<open>raw\<close>, so the call raises \<^verbatim>\<open>TypeError\<close> before a byte is read, whatever
  the file holds.
\<close>

definition load_object_legacy :: "os_env \<Rightarrow> string \<Rightarrow> exn + pyval" where
  "load_object_legacy env file_path =
     (case files env (expanduser env file_path) of
        None \<Rightarrow> Inl IOError
      | Some b \<Rightarrow> Inl TypeError)"

text \<open>\<^verbatim>\<open>msgpack.unpack(fh, raw=False)\<close>: lists for arrays, no object hook.\<close>

definition load_opts :: unpack_opts where
  "load_opts = \<lparr>raw = False, use_list = True, object_hook = None\<rparr>"

text \<open>
  \<^verbatim>\<open>except Exception\<close> catches whatever the unpacker raises. Where the model of the unpacker
  has no answer, neither has \<open>load_object\<close>.
\<close>

definition load_object :: "os_env \<Rightarrow> string \<Rightarrow> bool \<Rightarrow> exn + pyval" where
  "load_object env file_path allow_legacy =
     (let fp = expanduser env file_path in
      case files env fp of
        None \<Rightarrow> Inl IOError
      | Some b \<Rightarrow>
          (case msgpack_loads load_opts b of
             Inr v \<Rightarrow> Inr v
           | Inl e \<Rightarrow>
               if e = Unmodelled then Inl Unmodelled
               else if \<not> allow_legacy then Inl e
               else load_object_legacy env fp))"

text \<open>\<^verbatim>\<open>isinstance(o, np.ndarray)\<close> is false for every value of \<open>pyval\<close>.\<close>

definition ndarrray_to_list :: "pyval \<Rightarrow> pyval" where
  "ndarrray_to_list o' = o'"

text \<open>
  The file is opened, and so emptied, before the object is packed; \<^verbatim>\<open>msgpack.pack\<close> writes
  only once the whole object is packed.
\<close>

definition save_object :: "os_env \<Rightarrow> pyval \<Rightarrow> string \<Rightarrow> exn option \<times> os_env" where
  "save_object env object' file_path =
     (let fp = expanduser env file_path in
      case pack (Some ndarrray_to_list) nest_limit object' of
        Inl e \<Rightarrow> (Some e, env\<lparr>files := (files env)(fp \<mapsto> [])\<rparr>)
      | Inr b \<Rightarrow> (None, env\<lparr>files := (files env)(fp \<mapsto> b)\<rparr>))"

section \<open>Persistent\_Dict\<close>

record Persistent_Dict =
  pd_file_path :: string
  pd_items :: "(pyval \<times> pyval) list"

text \<open>\<^verbatim>\<open>self.update(**x)\<close> needs \<open>x\<close> to be a mapping whose keys are all \<^verbatim>\<open>str\<close>.\<close>

definition kwargs_of :: "pyval \<Rightarrow> exn + (pyval \<times> pyval) list" where
  "kwargs_of x =
     (case x of
        PDict kvs \<Rightarrow> if list_all (\<lambda>kv. case fst kv of PStr s \<Rightarrow> True | _ \<Rightarrow> False) kvs then Inr kvs else Inl TypeError
      | PFrozenDict kvs \<Rightarrow> if list_all (\<lambda>kv. case fst kv of PStr s \<Rightarrow> True | _ \<Rightarrow> False) kvs then Inr kvs else Inl TypeError
      | _ \<Rightarrow> Inl TypeError)"

text \<open>
  \<^verbatim>\<open>Persistent_Dict(file_path, *args, **kwargs)\<close>; \<open>init\<close> is the dict that \<^verbatim>\<open>*args, **kwargs\<close>
  build. Both \<^verbatim>\<open>except\<close> clauses only log, so every exception leaves the dict as built.
\<close>

definition Persistent_Dict_init :: "os_env \<Rightarrow> string \<Rightarrow> (pyval \<times> pyval) list \<Rightarrow> exn + Persistent_Dict" where
  "Persistent_Dict_init env file_path init =
     (let self = \<lparr>pd_file_path = expanduser env file_path, pd_items = init\<rparr> in
      case load_object env (pd_file_path self) False of
        Inl e \<Rightarrow> if e = Unmodelled then Inl Unmodelled else Inr self
      | Inr loaded \<Rightarrow>
          (case kwargs_of loaded of
             Inl e \<Rightarrow> Inr self
           | Inr kws \<Rightarrow> Inr (self\<lparr>pd_items := dict_update (pd_items self) kws\<rparr>)))"

definition Persistent_Dict_save :: "os_env \<Rightarrow> Persistent_Dict \<Rightarrow> exn option \<times> os_env" where
  "Persistent_Dict_save env self =
     (let d = dict_update [] (pd_items self) in save_object env (PDict d) (pd_file_path self))"

definition Persistent_Dict_close :: "os_env \<Rightarrow> Persistent_Dict \<Rightarrow> exn option \<times> os_env" where
  "Persistent_Dict_close env self = Persistent_Dict_save env self"

section \<open>Serialized\_Dict\<close>

text \<open>
  Instances are objects with identity: the store \<open>objs\<close> holds them and a reference is an
  index into it, which is valid when it is below \<open>length (objs w)\<close>. \<open>cache_ref\<close> is the
  class attribute \<^verbatim>\<open>_cache_ref\<close>, shared by all instances; it starts as \<open>cache_len\<close>
  references to one \<^verbatim>\<open>Empty\<close> object.
\<close>

record sd_obj =
  ser_data :: bytes
  data :: pyval

datatype cache_slot = Empty | Obj nat

record world =
  objs :: "sd_obj list"
  cache_ref :: "cache_slot list"

definition cache_len :: nat where
  "cache_len = 100"

definition initial_world :: world where
  "initial_world = \<lparr>objs = [], cache_ref = replicate cache_len Empty\<rparr>"

subsection \<open>FrozenDict\<close>

text \<open>
  \<^verbatim>\<open>FrozenDict\<close> overrides \<^verbatim>\<open>__setitem__\<close>, \<^verbatim>\<open>clear\<close> and \<^verbatim>\<open>update\<close>; \<^verbatim>\<open>__delitem__\<close> and \<^verbatim>\<open>pop\<close>
  are the ones it inherits from \<^verbatim>\<open>dict\<close>. A call gives the value returned and the items
  the mapping holds afterwards.
\<close>

datatype dict_call =
    SetItem pyval pyval
  | DelItem pyval
  | Pop pyval
  | Clear
  | Update "(pyval \<times> pyval) list"

fun FrozenDict_call :: "(pyval \<times> pyval) list \<Rightarrow> dict_call \<Rightarrow> exn + (pyval \<times> (pyval \<times> pyval) list)" where
  "FrozenDict_call kvs (SetItem k v) = Inl NotImplementedError"
| "FrozenDict_call kvs Clear = Inl NotImplementedError"
| "FrozenDict_call kvs (Update other) = Inl NotImplementedError"
| "FrozenDict_call kvs (DelItem k) =
     (case dict_delitem kvs k of Inl e \<Rightarrow> Inl e | Inr kvs' \<Rightarrow> Inr (PNone, kvs'))"
| "FrozenDict_call kvs (Pop k) =
     (case dict_getitem kvs k of
        Inl e \<Rightarrow> Inl e
      | Inr v \<Rightarrow> (case dict_delitem kvs k of Inl e \<Rightarrow> Inl e | Inr kvs' \<Rightarrow> Inr (v, kvs')))"

subsection \<open>Construction and decoding\<close>

definition new_obj :: "world \<Rightarrow> bytes \<Rightarrow> nat \<times> world" where
  "new_obj w b = (length (objs w), w\<lparr>objs := objs w @ [\<lparr>ser_data = b, data = PNone\<rparr>]\<rparr>)"

text \<open>\<^verbatim>\<open>Serialized_Dict(mapping, payload)\<close>; an argument left out is \<open>PNone\<close>.\<close>

definition Serialized_Dict_init :: "world \<Rightarrow> pyval \<Rightarrow> pyval \<Rightarrow> exn + (nat \<times> world)" where
  "Serialized_Dict_init w mapping payload =
     (case mapping of
        PDict kvs \<Rightarrow>
          (case msgpack_dumps mapping of Inl e \<Rightarrow> Inl e | Inr b \<Rightarrow> Inr (new_obj w b))
      | _ \<Rightarrow>
          (case payload of
             PBytes b \<Rightarrow> Inr (new_obj w b)
           | _ \<Rightarrow> Inl Exception))"

definition object_hook_fn :: "pyval \<Rightarrow> pyval" where
  "object_hook_fn obj = (case obj of PDict kvs \<Rightarrow> PFrozenDict kvs | _ \<Rightarrow> PNone)"

definition deser_opts :: unpack_opts where
  "deser_opts = \<lparr>raw = False, use_list = False, object_hook = Some object_hook_fn\<rparr>"

definition set_data :: "world \<Rightarrow> nat \<Rightarrow> pyval \<Rightarrow> world" where
  "set_data w r v = w\<lparr>objs := (objs w)[r := (objs w ! r)\<lparr>data := v\<rparr>]\<rparr>"

definition purge_cache :: "world \<Rightarrow> nat \<Rightarrow> world" where
  "purge_cache w r = set_data w r PNone"

text \<open>\<^verbatim>\<open>x.purge_cache()\<close> for \<open>x\<close> taken from the cache: \<^verbatim>\<open>Empty.purge_cache\<close> does nothing.\<close>

fun purge_slot :: "world \<Rightarrow> cache_slot \<Rightarrow> world" where
  "purge_slot w Empty = w"
| "purge_slot w (Obj r) = purge_cache w r"

text \<open>
  \<^verbatim>\<open>_deser\<close>. An exception of \<^verbatim>\<open>msgpack.loads\<close> leaves everything as it was; \<^verbatim>\<open>pop(0)\<close> on an
  empty list would raise after \<^verbatim>\<open>_data\<close> is set.
\<close>

definition deser :: "world \<Rightarrow> nat \<Rightarrow> exn option \<times> world" where
  "deser w r =
     (if \<not> truthy (data (objs w ! r)) then
        (case msgpack_loads deser_opts (ser_data (objs w ! r)) of
           Inl e \<Rightarrow> (Some e, w)
         | Inr v \<Rightarrow>
             (let w1 = set_data w r v in
              case cache_ref w1 of
                [] \<Rightarrow> (Some IndexError, w1)
              | x # rest \<Rightarrow>
                  (let w2 = purge_slot (w1\<lparr>cache_ref := rest\<rparr>) x
                   in (None, w2\<lparr>cache_ref := cache_ref w2 @ [Obj r]\<rparr>))))
      else (None, w))"

subsection \<open>Reading methods\<close>

definition Serialized_Dict_getitem :: "world \<Rightarrow> nat \<Rightarrow> pyval \<Rightarrow> (exn + pyval) \<times> world" where
  "Serialized_Dict_getitem w r key =
     (case deser w r of
        (Some e, w') \<Rightarrow> (Inl e, w')
      | (None, w') \<Rightarrow> (py_getitem (data (objs w' ! r)) key, w'))"




text \<open>\<^verbatim>\<open>get(key, default)\<close>: the subscript in the source is the string \<^verbatim>\<open>'key'\<close>.\<close>

definition Serialized_Dict_get :: "world \<Rightarrow> nat \<Rightarrow> pyval \<Rightarrow> pyval \<Rightarrow> (exn + pyval) \<times> world" where
  "Serialized_Dict_get w r key default' =
     (case Serialized_Dict_getitem w r (PStr ''key'') of
        (Inl e, w') \<Rightarrow> if e = KeyError then (Inr default', w') else (Inl e, w')
      | (Inr v, w') \<Rightarrow> (Inr v, w'))"

subsection \<open>Mutating methods\<close>

text \<open>Each raises on its first line.\<close>

definition Serialized_Dict_setitem :: "world \<Rightarrow> nat \<Rightarrow> pyval \<Rightarrow> pyval \<Rightarrow> (exn + pyval) \<times> world" where
  "Serialized_Dict_setitem w r key item = (Inl NotImplementedError, w)"

definition Serialized_Dict_delitem :: "world \<Rightarrow> nat \<Rightarrow> pyval \<Rightarrow> (exn + pyval) \<times> world" where
  "Serialized_Dict_delitem w r key = (Inl NotImplementedError, w)"

definition Serialized_Dict_pop :: "world \<Rightarrow> nat \<Rightarrow> pyval list \<Rightarrow> (exn + pyval) \<times> world" where
  "Serialized_Dict_pop w r args = (Inl NotImplementedError, w)"

definition Serialized_Dict_clear :: "world \<Rightarrow> nat \<Rightarrow> (exn + pyval) \<times> world" where
  "Serialized_Dict_clear w r = (Inl NotImplementedError, w)"

definition Serialized_Dict_update :: "world \<Rightarrow> nat \<Rightarrow> (pyval \<times> pyval) list \<Rightarrow> (exn + pyval) \<times> world" where
  "Serialized_Dict_update w r other = (Inl NotImplementedError, w)"

subsection \<open>A call on a mapping nested in a record\<close>

text \<open>
  \<^verbatim>\<open>m = r[key]\<close> followed by a call on \<^verbatim>\<open>m\<close>. \<^verbatim>\<open>m\<close> is the object that \<^verbatim>\<open>r._data\<close> holds under
  \<open>key\<close>, not a copy, so what the call does to \<^verbatim>\<open>m\<close> it does to \<^verbatim>\<open>r._data\<close>.
\<close>

definition nested_call :: "world \<Rightarrow> nat \<Rightarrow> pyval \<Rightarrow> dict_call \<Rightarrow> (exn + pyval) \<times> world" where
  "nested_call w r key c =
     (case Serialized_Dict_getitem w r key of
        (Inl e, w') \<Rightarrow> (Inl e, w')
      | (Inr m, w') \<Rightarrow>
          (case m of
             PFrozenDict kvs \<Rightarrow>
               (case FrozenDict_call kvs c of
                  Inl e \<Rightarrow> (Inl e, w')
                | Inr (ret, kvs') \<Rightarrow>
                    (case data (objs w' ! r) of
                       PFrozenDict outer \<Rightarrow>
                         (Inr ret, set_data w' r (PFrozenDict (dict_setitem outer key (PFrozenDict kvs'))))
                     | _ \<Rightarrow> (Inl Unmodelled, w')))
           | _ \<Rightarrow> (Inl Unmodelled, w')))"

section \<open>load\_pupil\_data\_file, save\_pupil\_data\_file\<close>

text \<open>The unpacker takes at least one byte for every object it returns.\<close>

lemma read_header_shorter: "read_header bs = Ok tok r \<Longrightarrow> length r < length bs"
  by (auto simp: read_header_def Let_def read_len_def read_be_def read_uint_def read_float64_def
      read_signed_def split: list.splits if_splits parsed.splits)

declare unpack.simps [simp del]

lemma unpack_shorter:
  "unpack opts d bs = Ok v r \<longrightarrow> length r < length bs"
  "unpack_items opts d n bs = Ok xs r1 \<longrightarrow> length r1 \<le> length bs"
  "unpack_pairs opts d n bs acc = Ok kvs r2 \<longrightarrow> length r2 \<le> length bs"
proof (induction opts d bs and opts d n bs and opts d n bs acc
    arbitrary: v r and xs r1 and kvs r2 rule: unpack_unpack_items_unpack_pairs.induct)
  case (1 opts d bs)
  show ?case
  proof
    assume u: "unpack opts d bs = Ok v r"
    then obtain tok r0 where h: "read_header bs = Ok tok r0"
      by (subst (asm) unpack.simps) (simp split: parsed.splits)
    have l0: "length r0 < length bs" by (rule read_header_shorter[OF h])
    show "length r < length bs"
    proof (cases tok)
      case (TVal x)
      with u h l0 show ?thesis by (subst (asm) unpack.simps) simp
    next
      case (TStr n)
      with u h l0 show ?thesis by (subst (asm) unpack.simps) (auto split: if_splits)
    next
      case (TBin n)
      with u h l0 show ?thesis by (subst (asm) unpack.simps) (auto split: if_splits)
    next
      case (TArray n)
      show ?thesis
      proof (cases d)
        case 0
        with u h l0 TArray show ?thesis by (subst (asm) unpack.simps) (auto split: if_splits)
      next
        case (Suc d')
        from u h TArray Suc obtain xs where "unpack_items opts d' n r0 = Ok xs r"
          by (subst (asm) unpack.simps) (auto split: parsed.splits)
        with "1.IH"(1)[OF h TArray Suc] l0 show ?thesis by fastforce
      qed
    next
      case (TMap n)
      show ?thesis
      proof (cases d)
        case 0
        with u h l0 TMap show ?thesis by (subst (asm) unpack.simps) (auto split: if_splits)
      next
        case (Suc d')
        from u h TMap Suc obtain kvs where "unpack_pairs opts d' n r0 [] = Ok kvs r"
          by (subst (asm) unpack.simps) (auto split: parsed.splits)
        with "1.IH"(2)[OF h TMap Suc] l0 show ?thesis by fastforce
      qed
    qed
  qed
next
  case (2 opts d bs)
  then show ?case by simp
next
  case (3 opts d n bs)
  then show ?case by (fastforce split: parsed.splits)
next
  case (4 opts d bs acc)
  then show ?case by simp
next
  case (5 opts d n bs acc)
  then show ?case by (fastforce split: parsed.splits if_splits)
qed

text \<open>\<^verbatim>\<open>topic.split(".")[0]\<close>\<close>

definition first_segment :: "string \<Rightarrow> string" where
  "first_segment topic = takeWhile (\<lambda>c. c \<noteq> CHR ''.'') topic"

definition loader_opts :: unpack_opts where
  "loader_opts = \<lparr>raw = False, use_list = False, object_hook = None\<rparr>"

text \<open>
  \<open>pupil_data\<close>, a dict from topic to a list of records, is held as its items in insertion
  order; the records are references into the store.
\<close>

definition append_record :: "(string \<times> nat list) list \<Rightarrow> string \<Rightarrow> nat \<Rightarrow> (string \<times> nat list) list" where
  "append_record pupil_data topic r =
     map (\<lambda>kv. if fst kv = topic then (fst kv, snd kv @ [r]) else kv) pupil_data"

text \<open>The body of the loop, for one object the unpacker yields.\<close>

definition frame_body ::
  "world \<Rightarrow> pyval \<Rightarrow> (string \<times> nat list) list \<Rightarrow> exn + ((string \<times> nat list) list \<times> world)" where
  "frame_body w frame pupil_data =
     (case py_unpack2 frame of
        Inl e \<Rightarrow> Inl e
      | Inr (topic, payload) \<Rightarrow>
          (case topic of
             PStr t \<Rightarrow>
               (let topic' = first_segment t;
                    pd1 = (if topic' \<notin> fst ` set pupil_data then pupil_data @ [(topic', [])] else pupil_data)
                in case Serialized_Dict_init w PNone payload of
                     Inl e \<Rightarrow> Inl e
                   | Inr (r, w') \<Rightarrow> Inr (append_record pd1 topic' r, w'))
           | PBytes b \<Rightarrow> Inl TypeError
           | _ \<Rightarrow> Inl AttributeError))"

text \<open>
  Iterating \<^verbatim>\<open>msgpack.Unpacker(fh, raw=False, use_list=False)\<close>: the iteration ends when
  the input runs out, also in the middle of an object.
\<close>

function load_frames ::
  "world \<Rightarrow> bytes \<Rightarrow> (string \<times> nat list) list \<Rightarrow> exn + ((string \<times> nat list) list \<times> world)" where
  "load_frames w bs pupil_data =
     (case unpack loader_opts nest_limit bs of
        OutOfData \<Rightarrow> Inr (pupil_data, w)
      | Raise e \<Rightarrow> Inl e
      | Ok frame rest \<Rightarrow>
          (case frame_body w frame pupil_data of
             Inl e \<Rightarrow> Inl e
           | Inr (pd', w') \<Rightarrow> load_frames w' rest pd'))"
  by pat_completeness auto
termination
  by (relation "measure (\<lambda>(w, bs, pd). length bs)") (auto simp: unpack_shorter(1))

declare load_frames.simps [simp del]

definition load_pupil_data_file ::
  "os_env \<Rightarrow> world \<Rightarrow> string \<Rightarrow> exn + ((string \<times> nat list) list \<times> world)" where
  "load_pupil_data_file env w file_path =
     (case files env file_path of
        None \<Rightarrow> Inl IOError
      | Some b \<Rightarrow> load_frames w b [])"

text \<open>The loop of \<^verbatim>\<open>save_pupil_data_file\<close>; \<open>written\<close> is what the file holds so far.\<close>

fun save_frames :: "bytes \<Rightarrow> pyval list \<Rightarrow> exn option \<times> bytes" where
  "save_frames written [] = (None, written)"
| "save_frames written (datum # rest) =
     (case py_getitem datum (PStr ''topic'') of
        Inl e \<Rightarrow> (Some e, written)
      | Inr topic \<Rightarrow>
          (case msgpack_dumps datum of
             Inl e \<Rightarrow> (Some e, written)
           | Inr b \<Rightarrow>
               (case msgpack_dumps (PTuple [topic, PBytes b]) of
                  Inl e \<Rightarrow> (Some e, written)
                | Inr fr \<Rightarrow> save_frames (written @ fr) rest)))"

text \<open>The file opened is the one named \<^verbatim>\<open>"file_path"\<close>, a string literal in the source.\<close>

definition save_pupil_data_file :: "os_env \<Rightarrow> string \<Rightarrow> pyval list \<Rightarrow> exn option \<times> os_env" where
  "save_pupil_data_file env file_path data' =
     (case save_frames [] data' of
        (e, written) \<Rightarrow> (e, env\<lparr>files := (files env)(''file_path'' \<mapsto> written)\<rparr>))"

section \<open>Notions used in the statements\<close>

text \<open>
  Runs of the operations, the invariant of the cache, the values for which the codec is
  proved to round-trip, the grouping in the words of the specification, and the concrete
  states and files the statements are instantiated at.
\<close>

text \<open>An environment without files.\<close>

definition no_files :: os_env where
  "no_files = \<lparr>files = (\<lambda>p. None), expanduser = (\<lambda>p. p)\<rparr>"

text \<open>\<^verbatim>\<open>_deser\<close> called on each record of a list in turn, up to the first exception.\<close>

fun deser_seq :: "world \<Rightarrow> nat list \<Rightarrow> exn option \<times> world" where
  "deser_seq w [] = (None, w)"
| "deser_seq w (r # rs) =
     (case deser w r of
        (Some e, w') \<Rightarrow> (Some e, w')
      | (None, w') \<Rightarrow> deser_seq w' rs)"

text \<open>The records that hold a decoded value.\<close>

definition decoded_refs :: "world \<Rightarrow> nat list" where
  "decoded_refs w = filter (\<lambda>r. data (objs w ! r) \<noteq> PNone) [0..<length (objs w)]"

text \<open>The cache has its fixed length, and every record holding a decoded value is in it.\<close>

definition cache_inv :: "world \<Rightarrow> bool" where
  "cache_inv w =
     (length (cache_ref w) = cache_len
      \<and> list_all (\<lambda>r. Obj r \<in> set (cache_ref w)) (decoded_refs w))"

text \<open>
  A record that was never decoded: it exists, holds no decoded value and is not in the
  cache; \<open>v a\<close> is what its payload decodes to.
\<close>

definition fresh :: "world \<Rightarrow> (nat \<Rightarrow> pyval) \<Rightarrow> nat \<Rightarrow> bool" where
  "fresh w v a =
     (a < length (objs w) \<and> Obj a \<notin> set (cache_ref w) \<and> data (objs w ! a) = PNone
      \<and> msgpack_loads deser_opts (ser_data (objs w ! a)) = Inr (v a))"

text \<open>
  The state after decoding the records \<open>rs\<close> in turn: the cache is a queue, and the
  slots popped from it lost their decoded values.
\<close>

definition after_seq :: "world \<Rightarrow> (nat \<Rightarrow> pyval) \<Rightarrow> nat list \<Rightarrow> world \<Rightarrow> bool" where
  "after_seq w v rs w' =
     (cache_ref w' = drop (length rs) (cache_ref w @ map Obj rs)
      \<and> length (objs w') = length (objs w)
      \<and> (\<forall>q. ser_data (objs w' ! q) = ser_data (objs w ! q))
      \<and> (\<forall>q < length (objs w). data (objs w' ! q) =
            (if Obj q \<in> set (take (length rs) (cache_ref w @ map Obj rs)) then PNone
             else if q \<in> set rs then v q else data (objs w ! q))))"


text \<open>\<open>n\<close> records built from \<^verbatim>\<open>{'a': 1}\<close>, none decoded, and the cache as it starts.\<close>

definition many_records :: "nat \<Rightarrow> world" where
  "many_records n =
     \<lparr>objs = replicate n \<lparr>ser_data = [0x81, 0xa1, 0x61, 0x01], data = PNone\<rparr>,
      cache_ref = replicate cache_len Empty\<rparr>"



text \<open>Every record holds nothing decoded or what its payload decodes to.\<close>

definition data_sound :: "world \<Rightarrow> bool" where
  "data_sound w =
     list_all (\<lambda>o'. data o' = PNone \<or> msgpack_loads deser_opts (ser_data o') = Inr (data o'))
       (objs w)"

text \<open>The payload of a record decodes to a value that passes the test in \<^verbatim>\<open>_deser\<close>.\<close>

definition payload_truthy :: "world \<Rightarrow> nat \<Rightarrow> bool" where
  "payload_truthy w q =
     (case msgpack_loads deser_opts (ser_data (objs w ! q)) of Inl e \<Rightarrow> False | Inr v \<Rightarrow> truthy v)"

text \<open>
  The cache is not empty and refers to records that exist; a record with such a payload
  is in the cache at most once, and not at all while it holds nothing that passes the
  test.
\<close>

definition cache_tidy :: "world \<Rightarrow> bool" where
  "cache_tidy w =
     (cache_ref w \<noteq> []
      \<and> list_all (\<lambda>x. case x of Empty \<Rightarrow> True | Obj q \<Rightarrow> q < length (objs w)) (cache_ref w)
      \<and> list_all (\<lambda>q. payload_truthy w q \<longrightarrow>
            count_list (cache_ref w) (Obj q) \<le> (if truthy (data (objs w ! q)) then 1 else 0))
          [0..<length (objs w)])"


text \<open>
  What the unpacker makes of a packed value: an array becomes a list or a tuple as
  \<open>use_list\<close> says, a map goes through the object hook.
\<close>

fun decoded :: "unpack_opts \<Rightarrow> pyval \<Rightarrow> pyval" where
  "decoded opts (PList xs) = mk_array opts (map (decoded opts) xs)"
| "decoded opts (PTuple xs) = mk_array opts (map (decoded opts) xs)"
| "decoded opts (PDict kvs) = mk_map opts (map (\<lambda>kv. (fst kv, decoded opts (snd kv))) kvs)"
| "decoded opts (PFrozenDict kvs) = mk_map opts (map (\<lambda>kv. (fst kv, decoded opts (snd kv))) kvs)"
| "decoded opts v = v"

text \<open>
  The values for which the round trip is proved: strings are well-formed UTF-8, the keys
  of a mapping are distinct and are \<^verbatim>\<open>str\<close> or \<^verbatim>\<open>bytes\<close>, sizes are below \<open>max_len\<close>.
\<close>

fun modelled :: "pyval \<Rightarrow> bool" where
  "modelled (PStr s) = (utf8_valid (string_bytes s) \<and> length s \<le> max_len)"
| "modelled (PBytes b) = (length b \<le> max_len)"
| "modelled (PList xs) = (length xs \<le> max_len \<and> list_all modelled xs)"
| "modelled (PTuple xs) = (length xs \<le> max_len \<and> list_all modelled xs)"
| "modelled (PDict kvs) =
     (length kvs \<le> max_len \<and> distinct (map fst kvs)
      \<and> list_all (\<lambda>kv. is_key (fst kv) \<and> modelled (fst kv) \<and> modelled (snd kv)) kvs)"
| "modelled (PFrozenDict kvs) =
     (length kvs \<le> max_len \<and> distinct (map fst kvs)
      \<and> list_all (\<lambda>kv. is_key (fst kv) \<and> modelled (fst kv) \<and> modelled (snd kv)) kvs)"
| "modelled v = True"

text \<open>
  The values that \<open>load_object\<close> hands back as they were saved: no tuple and no
  \<^verbatim>\<open>FrozenDict\<close> anywhere inside.
\<close>

fun plain :: "pyval \<Rightarrow> bool" where
  "plain (PTuple xs) = False"
| "plain (PFrozenDict kvs) = False"
| "plain (PList xs) = list_all plain xs"
| "plain (PDict kvs) = list_all (\<lambda>kv. plain (snd kv)) kvs"
| "plain v = True"

text \<open>A settings mapping with a list, a float, a string, a boolean and \<^verbatim>\<open>None\<close>.\<close>

definition sample_settings :: pyval where
  "sample_settings =
     PDict [(PStr ''window_size'', PList [PInt 1280, PInt 720]),
            (PStr ''gain'', PFloat 0x3FF8000000000000),
            (PStr ''name'', PStr ''eye0''),
            (PStr ''flip'', PBool True),
            (PStr ''last'', PNone)]"

text \<open>An environment whose file \<^verbatim>\<open>settings\<close> holds the pickle (protocol 3) of \<^verbatim>\<open>{'a': 1}\<close>.\<close>

definition legacy_env :: os_env where
  "legacy_env =
     \<lparr>files = [''settings'' \<mapsto>
         [0x80, 0x03, 0x7d, 0x71, 0x00, 0x58, 0x01, 0x00, 0x00, 0x00, 0x61, 0x71, 0x01, 0x4b, 0x01, 0x73, 0x2e]],
      expanduser = (\<lambda>p. p)\<rparr>"

text \<open>
  What the body of the loader's loop does to \<open>pupil_data\<close> for a frame with the topic
  \<open>topic\<close> whose record is \<open>r\<close>.
\<close>

definition add_record :: "(string \<times> nat list) list \<Rightarrow> string \<Rightarrow> nat \<Rightarrow> (string \<times> nat list) list" where
  "add_record pd topic r =
     (let seg = first_segment topic;
          pd1 = (if seg \<notin> fst ` set pd then pd @ [(seg, [])] else pd)
      in append_record pd1 seg r)"

text \<open>The loop of the loader, run on frames already unpacked: topics with payloads.\<close>

fun group_frames ::
  "world \<Rightarrow> (string \<times> bytes) list \<Rightarrow> (string \<times> nat list) list \<Rightarrow> (string \<times> nat list) list \<times> world" where
  "group_frames w [] pd = (pd, w)"
| "group_frames w (f # fs) pd =
     group_frames (snd (new_obj w (snd f))) fs (add_record pd (fst f) (length (objs w)))"

text \<open>\<^verbatim>\<open>pupil_data[g]\<close>, and no records for a \<open>g\<close> that is not a key.\<close>

definition records_of :: "(string \<times> nat list) list \<Rightarrow> string \<Rightarrow> nat list" where
  "records_of groups g = (case map_of groups g of None \<Rightarrow> [] | Some ids \<Rightarrow> ids)"

text \<open>
  The grouping as the specification words it: the records of group \<open>g\<close> are those of the
  frames whose topic has \<open>g\<close> as its first dot-delimited segment, in file order. The
  record of the frame at position \<open>i\<close> is number \<open>n0 + i\<close>.
\<close>

definition group_records :: "nat \<Rightarrow> string list \<Rightarrow> string \<Rightarrow> nat list" where
  "group_records n0 topics g =
     map (\<lambda>i. n0 + i) (filter (\<lambda>i. first_segment (topics ! i) = g) [0..<length topics])"

text \<open>A frame as a writer packs it: the pair of the topic and the encoded payload.\<close>

definition frame_packed :: "string \<times> bytes \<Rightarrow> exn + bytes" where
  "frame_packed f = msgpack_dumps (PTuple [PStr (fst f), PBytes (snd f)])"

definition frame_modelled :: "string \<times> bytes \<Rightarrow> bool" where
  "frame_modelled f = (modelled (PStr (fst f)) \<and> modelled (PBytes (snd f)))"

text \<open>Three frames with the topics of the example, each with the payload of \<^verbatim>\<open>{}\<close>.\<close>

definition three_frames :: "(string \<times> bytes) list" where
  "three_frames = [(''gaze.0'', [0x80]), (''gaze.1'', [0x80]), (''pupil.0'', [0x80])]"

definition three_frames_file :: bytes where
  "three_frames_file =
     [0x92, 0xa6, 0x67, 0x61, 0x7a, 0x65, 0x2e, 0x30, 0xc4, 0x01, 0x80,
      0x92, 0xa6, 0x67, 0x61, 0x7a, 0x65, 0x2e, 0x31, 0xc4, 0x01, 0x80,
      0x92, 0xa7, 0x70, 0x75, 0x70, 0x69, 0x6c, 0x2e, 0x30, 0xc4, 0x01, 0x80]"

definition three_frames_env :: os_env where
  "three_frames_env =
     \<lparr>files = [''pupil_data'' \<mapsto> three_frames_file], expanduser = (\<lambda>p. p)\<rparr>"

section \<open>Evaluation\<close>

text \<open>Rules that let the simplifier run the packer, the unpacker and the loader on concrete input.\<close>

lemma unpack_items_numeral:
  "unpack_items opts d (numeral k) bs =
     (case unpack opts d bs of
        Ok v r \<Rightarrow>
          (case unpack_items opts d (pred_numeral k) r of
             Ok vs r' \<Rightarrow> Ok (v # vs) r'
           | OutOfData \<Rightarrow> OutOfData
           | Raise e \<Rightarrow> Raise e)
      | OutOfData \<Rightarrow> OutOfData
      | Raise e \<Rightarrow> Raise e)"
  by (simp only: numeral_eq_Suc unpack_items.simps)

lemma unpack_pairs_numeral:
  "unpack_pairs opts d (numeral k) bs acc =
     (case unpack opts d bs of
        Ok key r \<Rightarrow>
          (if \<not> is_key key then Raise Unmodelled
           else case unpack opts d r of
                  Ok v r' \<Rightarrow> unpack_pairs opts d (pred_numeral k) r' (dict_setitem acc key v)
                | OutOfData \<Rightarrow> OutOfData
                | Raise e \<Rightarrow> Raise e)
      | OutOfData \<Rightarrow> OutOfData
      | Raise e \<Rightarrow> Raise e)"
  by (simp only: numeral_eq_Suc unpack_pairs.simps)

lemma be_bytes_numeral:
  "be_bytes (numeral k) x = of_nat (x div 256 ^ pred_numeral k) # be_bytes (pred_numeral k) x"
  by (simp only: numeral_eq_Suc be_bytes.simps)

lemmas unpack_eval = unpack.simps unpack_items_numeral unpack_pairs_numeral read_header_def Let_def
  read_len_def read_be_def read_uint_def read_signed_def read_float64_def be_nat_def be_int_def
  max_len_def nest_limit_def mk_array_def mk_map_def bytes_string_def in_range_def
  loader_opts_def deser_opts_def load_opts_def object_hook_fn_def char_of_def bit_Suc_0_iff

lemmas pack_eval = msgpack_dumps_def nest_limit_def pack_int_def pack_raw_header_def
  pack_bin_header_def pack_array_header_def pack_map_header_def be_signed_def be_bytes_numeral
  string_bytes_def

lemma load_frames_end:
  "unpack loader_opts nest_limit bs = OutOfData \<Longrightarrow> load_frames w bs pd = Inr (pd, w)"
  by (subst load_frames.simps) simp

lemma load_frames_raise:
  "unpack loader_opts nest_limit bs = Raise e \<Longrightarrow> load_frames w bs pd = Inl e"
  by (subst load_frames.simps) simp

lemma load_frames_step:
  "unpack loader_opts nest_limit bs = Ok frame rest \<Longrightarrow> frame_body w frame pd = Inr (pd', w')
   \<Longrightarrow> load_frames w bs pd = load_frames w' rest pd'"
  by (subst load_frames.simps) simp

lemma load_frames_body_raise:
  "unpack loader_opts nest_limit bs = Ok frame rest \<Longrightarrow> frame_body w frame pd = Inl e
   \<Longrightarrow> load_frames w bs pd = Inl e"
  by (subst load_frames.simps) simp

section \<open>Construction of a Serialized\_Dict\<close>

text \<open>
  Claim C5, as stated, asks that a mapping together with a payload be a construction
  error. \<^verbatim>\<open>__init__\<close> tests the mapping first and never looks at the payload once the
  mapping is a dict: with the mapping \<^verbatim>\<open>{}\<close> and the payload \<^verbatim>\<open>b'\xc0'\<close> an instance is
  built, holding the encoding of \<^verbatim>\<open>{}\<close>.
\<close>

theorem init_both_sources_succeeds:
  "Serialized_Dict_init initial_world (PDict []) (PBytes [0xc0])
     = Inr (0, initial_world\<lparr>objs := [\<lparr>ser_data = [0x80], data = PNone\<rparr>]\<rparr>)"
  by (simp add: Serialized_Dict_init_def msgpack_dumps_def nest_limit_def pack_map_header_def
      new_obj_def initial_world_def)

text \<open>
  Claim C5, amended: a dict mapping that msgpack encodes gives an instance holding that
  encoding, whether or not a payload comes with it; without a mapping, a bytes payload
  gives an instance holding the payload; with neither, \<^verbatim>\<open>__init__\<close> raises.
\<close>

theorem init_sources:
  "(msgpack_dumps (PDict kvs) = Inr b \<longrightarrow>
      Serialized_Dict_init w (PDict kvs) PNone = Inr (new_obj w b)
      \<and> Serialized_Dict_init w (PDict kvs) (PBytes p) = Inr (new_obj w b))
   \<and> Serialized_Dict_init w PNone (PBytes p) = Inr (new_obj w p)
   \<and> Serialized_Dict_init w PNone PNone = Inl Exception"
  by (simp add: Serialized_Dict_init_def)

theorem init_sources_witness:
  "msgpack_dumps (PDict []) = Inr [0x80]
   \<and> Serialized_Dict_init initial_world (PDict []) PNone = Inr (new_obj initial_world [0x80])
   \<and> Serialized_Dict_init initial_world (PDict []) (PBytes [0xc0]) = Inr (new_obj initial_world [0x80])
   \<and> Serialized_Dict_init initial_world PNone (PBytes [0xc0]) = Inr (new_obj initial_world [0xc0])
   \<and> Serialized_Dict_init initial_world PNone PNone = Inl Exception"
proof -
  have d: "msgpack_dumps (PDict []) = Inr [0x80]"
    by (simp add: msgpack_dumps_def nest_limit_def pack_map_header_def)
  show ?thesis
    using d init_sources [of "[]" "[0x80]" initial_world "[0xc0]"] by simp
qed

section \<open>Serialized\_Dict.get\<close>

text \<open>\<^verbatim>\<open>get\<close> never looks at the key it is given.\<close>

lemma get_ignores_key: "Serialized_Dict_get w r key d = Serialized_Dict_get w r key' d"
  by (simp add: Serialized_Dict_get_def)

text \<open>
  Claim C6 says that \<^verbatim>\<open>get(k, d)\<close> is \<^verbatim>\<open>m[k]\<close> when \<^verbatim>\<open>k\<close> is a key of the decoded mapping
  \<^verbatim>\<open>m\<close>. On the record built from \<^verbatim>\<open>{'a': 1}\<close>, \<^verbatim>\<open>r['a']\<close> is 1 and \<^verbatim>\<open>r.get('a', 0)\<close> is 0:
  the source subscripts with the string \<^verbatim>\<open>'key'\<close>.
\<close>

theorem get_returns_default_for_present_key:
  "(case Serialized_Dict_init initial_world (PDict [(PStr ''a'', PInt 1)]) PNone of
      Inl e \<Rightarrow> False
    | Inr (r, w) \<Rightarrow>
        fst (Serialized_Dict_getitem w r (PStr ''a'')) = Inr (PInt 1)
        \<and> fst (Serialized_Dict_get w r (PStr ''a'') (PInt 0)) = Inr (PInt 0))"
  by code_simp

section \<open>Mappings nested in a decoded record\<close>

text \<open>What \<^verbatim>\<open>FrozenDict\<close> overrides does fail, and leaves the record as the read left it.\<close>

lemma nested_overridden_call_fails:
  assumes "Serialized_Dict_getitem w r key = (Inr (PFrozenDict kvs), w')"
    and "c = SetItem k v \<or> c = Clear \<or> c = Update other"
  shows "nested_call w r key c = (Inl NotImplementedError, w')"
  using assms by (auto simp: nested_call_def)

text \<open>
  Claim C3 says that removing a key of a nested mapping fails and leaves the record
  unchanged. On the record built from \<^verbatim>\<open>{'a': {'b': 1}}\<close>, both \<^verbatim>\<open>del r['a']['b']\<close> and
  \<^verbatim>\<open>r['a'].pop('b')\<close> return normally, and \<^verbatim>\<open>r['a']\<close> is empty afterwards.
\<close>

theorem nested_removal_succeeds:
  "(case Serialized_Dict_init initial_world (PDict [(PStr ''a'', PDict [(PStr ''b'', PInt 1)])]) PNone of
      Inl e \<Rightarrow> False
    | Inr (r, w) \<Rightarrow>
        fst (Serialized_Dict_getitem w r (PStr ''a'')) = Inr (PFrozenDict [(PStr ''b'', PInt 1)])
        \<and> (case nested_call w r (PStr ''a'') (DelItem (PStr ''b'')) of
             (res, w') \<Rightarrow>
               res = Inr PNone
               \<and> fst (Serialized_Dict_getitem w' r (PStr ''a'')) = Inr (PFrozenDict []))
        \<and> (case nested_call w r (PStr ''a'') (Pop (PStr ''b'')) of
             (res, w') \<Rightarrow>
               res = Inr (PInt 1)
               \<and> fst (Serialized_Dict_getitem w' r (PStr ''a'')) = Inr (PFrozenDict [])))"
  by code_simp

section \<open>save\_pupil\_data\_file\<close>

text \<open>The path given to \<^verbatim>\<open>save_pupil_data_file\<close> plays no part in what it does.\<close>

lemma save_pupil_data_file_ignores_path:
  "save_pupil_data_file env file_path ds = save_pupil_data_file env file_path' ds"
  by (simp add: save_pupil_data_file_def)

text \<open>
  Claim C9 says that the frames are written to the file at the given path, where
  \<^verbatim>\<open>load_pupil_data_file\<close> finds them. Saving one datum to \<^verbatim>\<open>rec/pupil_data\<close> in an empty
  file system returns normally and leaves no file at \<^verbatim>\<open>rec/pupil_data\<close>, so loading that
  path raises \<^verbatim>\<open>IOError\<close>; the frame is in a file named \<^verbatim>\<open>file_path\<close>.
\<close>

theorem save_writes_to_literal_file_path:
  "(case save_pupil_data_file no_files ''rec/pupil_data'' [PDict [(PStr ''topic'', PStr ''pupil.0'')]] of
      (e, env') \<Rightarrow>
        e = None
        \<and> files env' ''rec/pupil_data'' = None
        \<and> load_pupil_data_file env' initial_world ''rec/pupil_data'' = Inl IOError
        \<and> (case load_pupil_data_file env' initial_world ''file_path'' of
             Inl e \<Rightarrow> False
           | Inr (groups, w) \<Rightarrow> groups = [(''pupil'', [0])]))"
proof -
  let ?fr = "[146, 167, 112, 117, 112, 105, 108, 46, 48, 196, 15, 129, 165, 116, 111, 112, 105,
    99, 167, 112, 117, 112, 105, 108, 46, 48] :: bytes"
  let ?pl = "[129, 165, 116, 111, 112, 105, 99, 167, 112, 117, 112, 105, 108, 46, 48] :: bytes"
  have s: "save_frames [] [PDict [(PStr ''topic'', PStr ''pupil.0'')]] = (None, ?fr)"
    by (simp add: dict_getitem_def pack_eval)
  have u: "unpack loader_opts nest_limit ?fr = Ok (PTuple [PStr ''pupil.0'', PBytes ?pl]) []"
    by (simp add: unpack_eval)
  have b: "frame_body initial_world (PTuple [PStr ''pupil.0'', PBytes ?pl]) []
      = Inr ([(''pupil'', [0])], snd (new_obj initial_world ?pl))"
    by (simp add: frame_body_def first_segment_def Serialized_Dict_init_def append_record_def
        new_obj_def initial_world_def)
  have e: "unpack loader_opts nest_limit [] = OutOfData"
    by (simp add: unpack_eval)
  have l: "load_frames initial_world ?fr [] = Inr ([(''pupil'', [0])], snd (new_obj initial_world ?pl))"
    by (simp add: load_frames_step [OF u b] load_frames_end [OF e])
  show ?thesis
    unfolding save_pupil_data_file_def s
    by (simp add: no_files_def load_pupil_data_file_def l)
qed

section \<open>The decode cache\<close>

lemma set_data_simps [simp]:
  "cache_ref (set_data w r v) = cache_ref w"
  "length (objs (set_data w r v)) = length (objs w)"
  "q < length (objs w) \<Longrightarrow> data (objs (set_data w r v) ! q) = (if q = r then v else data (objs w ! q))"
  "ser_data (objs (set_data w r v) ! q) = ser_data (objs w ! q)"
proof -
  show "cache_ref (set_data w r v) = cache_ref w" by (simp add: set_data_def)
  show "length (objs (set_data w r v)) = length (objs w)" by (simp add: set_data_def)
  show "q < length (objs w) \<Longrightarrow> data (objs (set_data w r v) ! q) = (if q = r then v else data (objs w ! q))"
    by (simp add: set_data_def nth_list_update)
  show "ser_data (objs (set_data w r v) ! q) = ser_data (objs w ! q)"
  proof (cases "r < length (objs w)")
    case True
    then show ?thesis by (cases "q = r") (simp_all add: set_data_def)
  next
    case False
    then show ?thesis by (simp add: set_data_def list_update_beyond)
  qed
qed

lemma purge_slot_simps [simp]:
  "cache_ref (purge_slot w x) = cache_ref w"
  "length (objs (purge_slot w x)) = length (objs w)"
  "q < length (objs w) \<Longrightarrow> data (objs (purge_slot w x) ! q) = (if x = Obj q then PNone else data (objs w ! q))"
  "ser_data (objs (purge_slot w x) ! q) = ser_data (objs w ! q)"
  by (cases x; auto simp: purge_cache_def)+

lemma deser_decodes:
  assumes "\<not> truthy (data (objs w ! r))"
    and "msgpack_loads deser_opts (ser_data (objs w ! r)) = Inr v"
    and "cache_ref w = x # rest"
    and "r < length (objs w)"
  shows "fst (deser w r) = None"
    and "cache_ref (snd (deser w r)) = rest @ [Obj r]"
    and "length (objs (snd (deser w r))) = length (objs w)"
    and "ser_data (objs (snd (deser w r)) ! q) = ser_data (objs w ! q)"
    and "q < length (objs w) \<Longrightarrow> data (objs (snd (deser w r)) ! q) =
           (if x = Obj q then PNone else if q = r then v else data (objs w ! q))"
  using assms by (auto simp: deser_def Let_def)

lemma deser_cached:
  "truthy (data (objs w ! r)) \<Longrightarrow> deser w r = (None, w)"
  by (simp add: deser_def)

lemma deser_seq_fresh:
  assumes "distinct rs" and "\<forall>a\<in>set rs. fresh w v a" and "cache_ref w \<noteq> []"
  shows "fst (deser_seq w rs) = None \<and> after_seq w v rs (snd (deser_seq w rs))"
  using assms
proof (induction rs arbitrary: w)
  case Nil
  then show ?case by (simp add: after_seq_def)
next
  case (Cons r rs)
  from Cons.prems obtain x rest where c: "cache_ref w = x # rest"
    by (cases "cache_ref w") auto
  from Cons.prems have fr: "fresh w v r" by simp
  let ?w1 = "snd (deser w r)"
  note d = deser_decodes [OF _ _ c, of r "v r"]
  from fr have f1: "\<not> truthy (data (objs w ! r))"
    and f2: "msgpack_loads deser_opts (ser_data (objs w ! r)) = Inr (v r)"
    and f3: "r < length (objs w)" and f4: "Obj r \<notin> set (cache_ref w)"
    by (simp_all add: fresh_def)
  have ok: "fst (deser w r) = None" by (rule d(1) [OF f1 f2 f3])
  have c1: "cache_ref ?w1 = rest @ [Obj r]" by (rule d(2) [OF f1 f2 f3])
  have l1: "length (objs ?w1) = length (objs w)" by (rule d(3) [OF f1 f2 f3])
  have s1: "\<And>q. ser_data (objs ?w1 ! q) = ser_data (objs w ! q)" by (rule d(4) [OF f1 f2 f3])
  have d1: "\<And>q. q < length (objs w) \<Longrightarrow> data (objs ?w1 ! q) =
           (if x = Obj q then PNone else if q = r then v r else data (objs w ! q))"
    by (rule d(5) [OF f1 f2 f3])
  have fresh1: "\<forall>a\<in>set rs. fresh ?w1 v a"
  proof
    fix a assume a: "a \<in> set rs"
    with Cons.prems have fa: "fresh w v a" and ne: "a \<noteq> r" by auto
    from fa c have "x \<noteq> Obj a" by (auto simp: fresh_def)
    with fa ne show "fresh ?w1 v a"
      by (simp add: fresh_def l1 c1 s1 d1 c)
  qed
  from Cons.prems have dist: "distinct rs" by simp
  have ih: "fst (deser_seq ?w1 rs) = None \<and> after_seq ?w1 v rs (snd (deser_seq ?w1 rs))"
    by (rule Cons.IH [OF dist fresh1]) (simp add: c1)
  have step: "deser_seq w (r # rs) = deser_seq ?w1 rs"
    using ok by (cases "deser w r") auto
  have xs: "\<And>q. q \<in> set rs \<Longrightarrow> x \<noteq> Obj q"
    using Cons.prems c by (auto simp: fresh_def)
  let ?w2 = "snd (deser_seq ?w1 rs)"
  let ?q1 = "rest @ Obj r # map Obj rs"
  from ih have A: "cache_ref ?w2 = drop (length rs) ?q1"
    and B: "length (objs ?w2) = length (objs w)"
    and C: "\<And>q. ser_data (objs ?w2 ! q) = ser_data (objs w ! q)"
    and D: "\<And>q. q < length (objs w) \<Longrightarrow> data (objs ?w2 ! q) =
            (if Obj q \<in> set (take (length rs) ?q1) then PNone
             else if q \<in> set rs then v q else data (objs ?w1 ! q))"
    unfolding after_seq_def c1 l1 s1 by simp_all
  have D': "data (objs ?w2 ! q) =
            (if Obj q \<in> set (take (length (r # rs)) (cache_ref w @ map Obj (r # rs))) then PNone
             else if q \<in> set (r # rs) then v q else data (objs w ! q))"
    if q: "q < length (objs w)" for q
  proof -
    have t: "take (length (r # rs)) (cache_ref w @ map Obj (r # rs)) = x # take (length rs) ?q1"
      by (simp add: c)
    show ?thesis
    proof (cases "x = Obj q")
      case True
      with xs have "q \<notin> set rs" by auto
      with True D [OF q] d1 [OF q] show ?thesis unfolding t by auto
    next
      case False
      with D [OF q] d1 [OF q] show ?thesis unfolding t by auto
    qed
  qed
  have "after_seq w v (r # rs) ?w2"
    unfolding after_seq_def
  proof (intro conjI allI impI)
    show "cache_ref ?w2 = drop (length (r # rs)) (cache_ref w @ map Obj (r # rs))"
      by (simp add: A c)
    show "length (objs ?w2) = length (objs w)" by (rule B)
    show "\<And>q. ser_data (objs ?w2 ! q) = ser_data (objs w ! q)" by (rule C)
    show "\<And>q. q < length (objs w) \<Longrightarrow> data (objs ?w2 ! q) =
            (if Obj q \<in> set (take (length (r # rs)) (cache_ref w @ map Obj (r # rs))) then PNone
             else if q \<in> set (r # rs) then v q else data (objs w ! q))"
      by (rule D')
  qed
  with ih show ?case unfolding step by blast
qed

lemma deser_length [simp]: "length (objs (snd (deser w r))) = length (objs w)"
  by (auto simp: deser_def Let_def split: sum.splits list.splits)

lemma deser_seq_length [simp]: "length (objs (snd (deser_seq w rs))) = length (objs w)"
proof (induction rs arbitrary: w)
  case Nil
  then show ?case by simp
next
  case (Cons r rs)
  have "length (objs (snd (deser w r))) = length (objs w)" by simp
  with Cons.IH [of "snd (deser w r)"] show ?case
    by (cases "deser w r") (auto split: option.splits)
qed

lemma cache_len_pos: "0 < cache_len"
  by (simp add: cache_len_def)

lemma cache_inv_bound:
  assumes "cache_inv w"
  shows "length (decoded_refs w) \<le> cache_len"
proof -
  have d: "distinct (decoded_refs w)" by (simp add: decoded_refs_def)
  from assms have sub: "Obj ` set (decoded_refs w) \<subseteq> set (cache_ref w)"
    by (auto simp: cache_inv_def list_all_iff)
  have "length (decoded_refs w) = card (set (decoded_refs w))"
    using d by (simp add: distinct_card)
  also have "\<dots> = card (Obj ` set (decoded_refs w))"
    by (simp add: card_image inj_on_def)
  also have "\<dots> \<le> card (set (cache_ref w))"
    by (rule card_mono [OF _ sub]) simp
  also have "\<dots> \<le> length (cache_ref w)" by (rule card_length)
  finally show ?thesis using assms by (simp add: cache_inv_def)
qed

lemma cache_inv_iff:
  "cache_inv w \<longleftrightarrow> length (cache_ref w) = cache_len
     \<and> (\<forall>q < length (objs w). data (objs w ! q) \<noteq> PNone \<longrightarrow> Obj q \<in> set (cache_ref w))"
  by (auto simp: cache_inv_def decoded_refs_def list_all_iff)

lemma cache_inv_deser:
  assumes inv: "cache_inv w" and r: "r < length (objs w)"
  shows "cache_inv (snd (deser w r))"
proof (cases "truthy (data (objs w ! r))")
  case True
  with inv show ?thesis by (simp add: deser_cached)
next
  case False
  show ?thesis
  proof (cases "msgpack_loads deser_opts (ser_data (objs w ! r))")
    case (Inl e)
    with False inv show ?thesis by (simp add: deser_def)
  next
    case (Inr v)
    from inv cache_len_pos obtain x rest where c: "cache_ref w = x # rest"
      by (cases "cache_ref w") (auto simp: cache_inv_iff)
    note d = deser_decodes [OF False Inr c r]
    show ?thesis
      unfolding cache_inv_iff
    proof (intro conjI allI impI)
      show "length (cache_ref (snd (deser w r))) = cache_len"
        using inv by (simp add: d(2) c cache_inv_iff)
      fix q assume q: "q < length (objs (snd (deser w r)))"
        and live: "data (objs (snd (deser w r)) ! q) \<noteq> PNone"
      from q have q': "q < length (objs w)" by simp
      from live d(5) [OF q'] have nx: "x \<noteq> Obj q" and "q = r \<or> data (objs w ! q) \<noteq> PNone"
        by (auto split: if_splits)
      then show "Obj q \<in> set (cache_ref (snd (deser w r)))"
        using inv q' c by (auto simp: d(2) cache_inv_iff)
    qed
  qed
qed

lemma cache_inv_deser_seq:
  assumes "cache_inv w" and "\<forall>r\<in>set rs. r < length (objs w)"
  shows "cache_inv (snd (deser_seq w rs))"
  using assms
proof (induction rs arbitrary: w)
  case Nil
  then show ?case by simp
next
  case (Cons r rs)
  from Cons.prems have "cache_inv (snd (deser w r))" by (simp add: cache_inv_deser)
  moreover from Cons.prems have "\<forall>a\<in>set rs. a < length (objs (snd (deser w r)))" by simp
  ultimately have "cache_inv (snd (deser_seq (snd (deser w r)) rs))" by (rule Cons.IH)
  moreover have "cache_inv (snd (deser w r))" by fact
  ultimately show ?case
    by (cases "deser w r") (auto split: option.splits)
qed

lemma cache_inv_initial: "cache_inv initial_world"
  by (simp add: cache_inv_iff initial_world_def)

lemma cache_inv_new_obj: "cache_inv w \<Longrightarrow> cache_inv (snd (new_obj w b))"
  by (auto simp: cache_inv_iff new_obj_def nth_append)

lemma cache_inv_purge_cache: "cache_inv w \<Longrightarrow> cache_inv (purge_cache w r)"
  by (auto simp: cache_inv_iff purge_cache_def split: if_splits)

lemma fresh_take:
  assumes "distinct rs" and "\<forall>a\<in>set rs. fresh w v a"
  shows "distinct (take k rs) \<and> (\<forall>a\<in>set (take k rs). fresh w v a)"
  using assms by (auto dest: in_set_takeD)

lemma popped_old:
  assumes "k \<le> length c"
  shows "take k (c @ ys) = take k c"
  using assms by simp

text \<open>
  Claim C1. Starting where the cache invariant holds, let more than \<open>cache_len\<close> distinct
  records that were never decoded be decoded one after the other. Every decode succeeds,
  and after each of them at most \<open>cache_len\<close> records hold a decoded value. At the end each
  of the first \<open>length rs - cache_len\<close> records holds none; its next access decodes its
  stored bytes again, and the value it then holds is what \<^verbatim>\<open>msgpack.loads\<close> gives for them.
\<close>

theorem cache_bound_and_redecode:
  assumes inv: "cache_inv w" and dist: "distinct rs" and fr: "\<forall>a\<in>set rs. fresh w v a"
    and n: "cache_len < length rs"
  shows "(\<forall>k \<le> length rs.
            fst (deser_seq w (take k rs)) = None
            \<and> length (decoded_refs (snd (deser_seq w (take k rs)))) \<le> cache_len)
       \<and> (\<forall>i < length rs - cache_len.
            data (objs (snd (deser_seq w rs)) ! (rs ! i)) = PNone
            \<and> fst (deser (snd (deser_seq w rs)) (rs ! i)) = None
            \<and> msgpack_loads deser_opts (ser_data (objs (snd (deser_seq w rs)) ! (rs ! i)))
                = Inr (data (objs (snd (deser (snd (deser_seq w rs)) (rs ! i))) ! (rs ! i))))"
proof (intro conjI allI impI)
  from inv have clen: "length (cache_ref w) = cache_len" by (simp add: cache_inv_iff)
  with cache_len_pos have ne: "cache_ref w \<noteq> []" by auto
  {
    fix k assume "k \<le> length rs"
    from fresh_take [OF dist fr, of k]
    have dk: "distinct (take k rs)" and fk: "\<forall>a\<in>set (take k rs). fresh w v a" by auto
    from deser_seq_fresh [OF dk fk ne]
    show "fst (deser_seq w (take k rs)) = None" by simp
    from fk have "\<forall>r\<in>set (take k rs). r < length (objs w)" by (simp add: fresh_def)
    with inv have "cache_inv (snd (deser_seq w (take k rs)))" by (rule cache_inv_deser_seq)
    then show "length (decoded_refs (snd (deser_seq w (take k rs)))) \<le> cache_len"
      by (rule cache_inv_bound)
  }
  let ?w' = "snd (deser_seq w rs)"
  let ?N = "length rs"
  from deser_seq_fresh [OF dist fr ne] have as: "after_seq w v rs ?w'" by simp
  fix i assume i: "i < length rs - cache_len"
  let ?a = "rs ! i"
  from i have iN: "i < ?N" by simp
  then have a_in: "?a \<in> set rs" by simp
  with fr have fa: "fresh w v ?a" by simp
  then have a_lt: "?a < length (objs w)" by (simp add: fresh_def)
  let ?old = "take ?N (cache_ref w @ map Obj rs)"
  have idx: "cache_len + i < length ?old"
    using i clen by simp
  have "?old ! (cache_len + i) = Obj ?a"
    using clen iN i by (simp add: nth_append)
  with nth_mem [OF idx] have popped: "Obj ?a \<in> set ?old"
    by simp
  from as a_lt popped show evicted: "data (objs ?w' ! ?a) = PNone"
    by (simp add: after_seq_def)
  let ?m = "?N - cache_len"
  from n have m: "?m < ?N" using cache_len_pos by simp
  from as have "cache_ref ?w' = drop ?N (cache_ref w @ map Obj rs)" by (simp add: after_seq_def)
  also have "\<dots> = map Obj (drop ?m rs)" using clen n by (simp add: drop_map)
  also have "\<dots> = Obj (rs ! ?m) # map Obj (drop (Suc ?m) rs)"
    using m by (simp add: Cons_nth_drop_Suc [symmetric])
  finally have c': "cache_ref ?w' = Obj (rs ! ?m) # map Obj (drop (Suc ?m) rs)" .
  from as have ser: "ser_data (objs ?w' ! ?a) = ser_data (objs w ! ?a)" by (simp add: after_seq_def)
  from fa have loads: "msgpack_loads deser_opts (ser_data (objs ?w' ! ?a)) = Inr (v ?a)"
    by (simp add: ser fresh_def)
  from evicted have falsy: "\<not> truthy (data (objs ?w' ! ?a))" by simp
  from a_lt have a_lt': "?a < length (objs ?w')" by simp
  note d = deser_decodes [OF falsy loads c' a_lt']
  show "fst (deser ?w' ?a) = None" by (rule d(1))
  from dist i m iN have "rs ! ?m \<noteq> ?a" by (simp add: nth_eq_iff_index_eq)
  with d(5) [OF a_lt'] have "data (objs (snd (deser ?w' ?a)) ! ?a) = v ?a" by simp
  with loads show "msgpack_loads deser_opts (ser_data (objs ?w' ! ?a))
      = Inr (data (objs (snd (deser ?w' ?a)) ! ?a))" by simp
qed

lemma deser_seq_snoc:
  "fst (deser_seq w xs) = None \<Longrightarrow> deser_seq w (xs @ [r]) = deser (snd (deser_seq w xs)) r"
proof (induction xs arbitrary: w)
  case Nil
  then show ?case by (cases "deser w r") (auto split: option.splits)
next
  case (Cons x xs)
  then show ?case by (cases "deser w x") (auto split: option.splits)
qed

text \<open>
  Claim C2. Decode \<open>cache_len + 1\<close> distinct records that were never decoded, in order.
  After each of the first \<open>cache_len\<close> decodes the first record still holds its value; after
  the last decode it holds none; every record other than the first and the last holds
  after the last decode what it held before it.
\<close>

theorem fifo_eviction:
  assumes clen: "length (cache_ref w) = cache_len" and dist: "distinct rs"
    and len: "length rs = Suc cache_len" and fr: "\<forall>a\<in>set rs. fresh w v a"
  shows "fst (deser_seq w rs) = None
       \<and> (\<forall>k. 0 < k \<and> k \<le> cache_len \<longrightarrow>
            data (objs (snd (deser_seq w (take k rs))) ! (rs ! 0)) = v (rs ! 0))
       \<and> data (objs (snd (deser_seq w rs)) ! (rs ! 0)) = PNone
       \<and> (\<forall>q < length (objs w). q \<noteq> rs ! 0 \<longrightarrow> q \<noteq> rs ! cache_len \<longrightarrow>
            data (objs (snd (deser_seq w rs)) ! q)
              = data (objs (snd (deser_seq w (take cache_len rs))) ! q))
       \<and> deser_seq w rs = deser (snd (deser_seq w (take cache_len rs))) (rs ! cache_len)"
proof (intro conjI allI impI)
  from clen cache_len_pos have ne: "cache_ref w \<noteq> []" by auto
  let ?c = "cache_ref w"
  let ?a = "rs ! 0"
  from len have a_in: "?a \<in> set rs" by (cases rs) auto
  with fr have fa: "fresh w v ?a" by simp
  then have a_lt: "?a < length (objs w)" and a_new: "Obj ?a \<notin> set ?c"
    by (simp_all add: fresh_def)
  from deser_seq_fresh [OF dist fr ne]
  have ok: "fst (deser_seq w rs) = None" and as: "after_seq w v rs (snd (deser_seq w rs))"
    by simp_all
  from ok show "fst (deser_seq w rs) = None" .
  have split: "rs = take cache_len rs @ [rs ! cache_len]"
    using len by (metis lessI take_Suc_conv_app_nth take_all order_refl)
  have popped: "take (length rs) (?c @ map Obj rs) = ?c @ [Obj ?a]"
    using clen len by (cases rs) auto
  from as a_lt show gone: "data (objs (snd (deser_seq w rs)) ! ?a) = PNone"
    unfolding after_seq_def popped by simp
  {
    fix k assume k: "0 < k \<and> k \<le> cache_len"
    from fresh_take [OF dist fr, of k]
    have dk: "distinct (take k rs)" and fk: "\<forall>a\<in>set (take k rs). fresh w v a" by auto
    from deser_seq_fresh [OF dk fk ne]
    have ask: "after_seq w v (take k rs) (snd (deser_seq w (take k rs)))" by simp
    from k len have lk: "length (take k rs) = k" by simp
    from k clen have pk: "take k (?c @ map Obj (take k rs)) = take k ?c" by simp
    from a_new have n1: "Obj ?a \<notin> set (take k ?c)" by (auto dest: in_set_takeD)
    from k len have "take k rs ! 0 = ?a" by simp
    moreover from k len have "0 < length (take k rs)" by simp
    ultimately have n2: "?a \<in> set (take k rs)" by (metis nth_mem)
    from ask a_lt n1 n2
    show "data (objs (snd (deser_seq w (take k rs))) ! ?a) = v ?a"
      unfolding after_seq_def lk pk by simp
  }
  let ?L = cache_len
  from fresh_take [OF dist fr, of ?L]
  have dL: "distinct (take ?L rs)" and fL: "\<forall>a\<in>set (take ?L rs). fresh w v a" by auto
  from deser_seq_fresh [OF dL fL ne]
  have okL: "fst (deser_seq w (take ?L rs)) = None"
    and asL: "after_seq w v (take ?L rs) (snd (deser_seq w (take ?L rs)))" by simp_all
  from deser_seq_snoc [OF okL, of "rs ! ?L"] split
  show "deser_seq w rs = deser (snd (deser_seq w (take ?L rs))) (rs ! ?L)" by simp
  fix q assume q: "q < length (objs w)" and q0: "q \<noteq> ?a" and qL: "q \<noteq> rs ! ?L"
  from len have lL: "length (take ?L rs) = ?L" by simp
  from clen have pL: "take ?L (?c @ map Obj (take ?L rs)) = ?c" by simp
  have mem: "q \<in> set rs \<longleftrightarrow> q \<in> set (take ?L rs)"
  proof -
    have "set rs = set (take ?L rs) \<union> {rs ! ?L}"
      by (subst split) simp
    with qL show ?thesis by auto
  qed
  from as q have "data (objs (snd (deser_seq w rs)) ! q) =
      (if Obj q \<in> set (?c @ [Obj ?a]) then PNone else if q \<in> set rs then v q else data (objs w ! q))"
    unfolding after_seq_def popped by simp
  moreover from asL q have "data (objs (snd (deser_seq w (take ?L rs))) ! q) =
      (if Obj q \<in> set ?c then PNone else if q \<in> set (take ?L rs) then v q else data (objs w ! q))"
    unfolding after_seq_def lL pL by simp
  ultimately show "data (objs (snd (deser_seq w rs)) ! q)
              = data (objs (snd (deser_seq w (take ?L rs))) ! q)"
    using q0 mem by simp
qed




text \<open>
  \<^verbatim>\<open>_data\<close> is assigned by \<^verbatim>\<open>__init__\<close>, \<^verbatim>\<open>_deser\<close> and \<^verbatim>\<open>purge_cache\<close> only, and each of them keeps
  \<open>data_sound\<close>.
\<close>

lemma data_sound_iff:
  "data_sound w \<longleftrightarrow>
     (\<forall>q < length (objs w). data (objs w ! q) = PNone
         \<or> msgpack_loads deser_opts (ser_data (objs w ! q)) = Inr (data (objs w ! q)))"
  by (simp add: data_sound_def list_all_length)

lemma data_sound_initial: "data_sound initial_world"
  by (simp add: data_sound_def initial_world_def)

lemma data_sound_new_obj: "data_sound w \<Longrightarrow> data_sound (snd (new_obj w b))"
  by (simp add: data_sound_def new_obj_def)

lemma data_sound_purge_cache: "data_sound w \<Longrightarrow> data_sound (purge_cache w r)"
  by (simp add: data_sound_iff purge_cache_def)

lemma data_sound_deser:
  assumes "data_sound w" and r: "r < length (objs w)"
  shows "data_sound (snd (deser w r))"
proof (cases "truthy (data (objs w ! r))")
  case True
  with assms show ?thesis by (simp add: deser_cached)
next
  case f: False
  show ?thesis
  proof (cases "msgpack_loads deser_opts (ser_data (objs w ! r))")
    case (Inl e)
    with f assms show ?thesis by (simp add: deser_def)
  next
    case (Inr v)
    show ?thesis
    proof (cases "cache_ref w")
      case Nil
      with f Inr have "snd (deser w r) = set_data w r v" by (simp add: deser_def Let_def)
      with assms(1) Inr show ?thesis by (simp add: data_sound_iff)
    next
      case (Cons x rest)
      note d = deser_decodes [OF f Inr Cons r]
      from assms(1) Inr show ?thesis by (simp add: data_sound_iff d(3) d(4) d(5))
    qed
  qed
qed

lemma data_sound_held:
  assumes "data_sound w" and "r < length (objs w)"
    and "msgpack_loads deser_opts (ser_data (objs w ! r)) = Inr v"
  shows "data (objs w ! r) = PNone \<or> data (objs w ! r) = v"
  using assms by (auto simp: data_sound_iff)

text \<open>
  Constructions and accesses keep \<open>cache_tidy\<close>, and where it holds no record with a
  payload that passes the test is at the front of the cache while it holds nothing
  decoded. \<^verbatim>\<open>purge_cache()\<close> called on a record that is in the cache does not keep it.
\<close>

lemma cache_tidy_iff:
  "cache_tidy w \<longleftrightarrow>
     cache_ref w \<noteq> []
     \<and> (\<forall>q. Obj q \<in> set (cache_ref w) \<longrightarrow> q < length (objs w))
     \<and> (\<forall>q < length (objs w). payload_truthy w q \<longrightarrow>
           count_list (cache_ref w) (Obj q) \<le> (if truthy (data (objs w ! q)) then 1 else 0))"
proof -
  have "list_all (\<lambda>x. case x of Empty \<Rightarrow> True | Obj q \<Rightarrow> q < length (objs w)) (cache_ref w)
      \<longleftrightarrow> (\<forall>q. Obj q \<in> set (cache_ref w) \<longrightarrow> q < length (objs w))"
    by (auto simp: list_all_iff split: cache_slot.splits)
  then show ?thesis unfolding cache_tidy_def by (auto simp: list_all_iff)
qed

lemma cache_tidy_initial: "cache_tidy initial_world"
  by (simp add: cache_tidy_iff initial_world_def cache_len_def)

lemma cache_tidy_new_obj:
  assumes "cache_tidy w"
  shows "cache_tidy (snd (new_obj w b))"
proof -
  let ?n = "length (objs w)"
  from assms have ne: "cache_ref w \<noteq> []"
    and valid: "\<And>q. Obj q \<in> set (cache_ref w) \<Longrightarrow> q < ?n"
    and once: "\<And>q. q < ?n \<Longrightarrow> payload_truthy w q \<Longrightarrow>
           count_list (cache_ref w) (Obj q) \<le> (if truthy (data (objs w ! q)) then 1 else 0)"
    by (simp_all add: cache_tidy_iff)
  from valid have "Obj ?n \<notin> set (cache_ref w)" by auto
  then have zero: "count_list (cache_ref w) (Obj ?n) = 0" by (simp add: count_list_0_iff)
  have pt: "\<And>q. q < ?n \<Longrightarrow> payload_truthy (snd (new_obj w b)) q = payload_truthy w q"
    by (simp add: payload_truthy_def new_obj_def nth_append)
  show ?thesis
    unfolding cache_tidy_iff
  proof (intro conjI allI impI)
    show "cache_ref (snd (new_obj w b)) \<noteq> []" using ne by (simp add: new_obj_def)
    fix q
    show "q < length (objs (snd (new_obj w b)))" if "Obj q \<in> set (cache_ref (snd (new_obj w b)))"
      using that valid [of q] by (simp add: new_obj_def)
    assume q: "q < length (objs (snd (new_obj w b)))" and p: "payload_truthy (snd (new_obj w b)) q"
    show "count_list (cache_ref (snd (new_obj w b))) (Obj q)
        \<le> (if truthy (data (objs (snd (new_obj w b)) ! q)) then 1 else 0)"
    proof (cases "q = ?n")
      case True
      with zero show ?thesis by (simp add: new_obj_def)
    next
      case False
      with q have lt: "q < ?n" by (simp add: new_obj_def)
      with p have "payload_truthy w q" by (simp add: pt)
      from once [OF lt this] lt show ?thesis by (simp add: new_obj_def nth_append)
    qed
  qed
qed

lemma cache_tidy_deser:
  assumes "cache_tidy w" and r: "r < length (objs w)"
  shows "cache_tidy (snd (deser w r))"
proof (cases "truthy (data (objs w ! r))")
  case True
  with assms show ?thesis by (simp add: deser_cached)
next
  case f: False
  show ?thesis
  proof (cases "msgpack_loads deser_opts (ser_data (objs w ! r))")
    case (Inl e)
    with f assms show ?thesis by (simp add: deser_def)
  next
    case (Inr v)
    let ?n = "length (objs w)"
    from assms have ne: "cache_ref w \<noteq> []"
      and valid: "\<And>q. Obj q \<in> set (cache_ref w) \<Longrightarrow> q < ?n"
      and once: "\<And>q. q < ?n \<Longrightarrow> payload_truthy w q \<Longrightarrow>
           count_list (cache_ref w) (Obj q) \<le> (if truthy (data (objs w ! q)) then 1 else 0)"
      by (simp_all add: cache_tidy_iff)
    from ne obtain x rest where c: "cache_ref w = x # rest" by (cases "cache_ref w") auto
    note d = deser_decodes [OF f Inr c r]
    let ?w = "snd (deser w r)"
    have pt: "\<And>q. payload_truthy ?w q = payload_truthy w q"
      by (simp add: payload_truthy_def d(4))
    show ?thesis
      unfolding cache_tidy_iff
    proof (intro conjI allI impI)
      show "cache_ref ?w \<noteq> []" by (simp add: d(2))
      fix q
      show "q < length (objs ?w)" if "Obj q \<in> set (cache_ref ?w)"
        using that valid [of q] r by (auto simp: d(2) d(3) c)
      assume "q < length (objs ?w)" and "payload_truthy ?w q"
      then have q: "q < ?n" and p: "payload_truthy w q" by (simp_all add: pt)
      note o = once [OF q p]
      show "count_list (cache_ref ?w) (Obj q) \<le> (if truthy (data (objs ?w ! q)) then 1 else 0)"
      proof (cases "q = r")
        case True
        with o f have "count_list (x # rest) (Obj r) = 0" by (simp add: c)
        then have x: "x \<noteq> Obj r" and z: "count_list rest (Obj r) = 0"
          by (auto split: if_splits)
        from p True Inr have "truthy v" by (simp add: payload_truthy_def)
        with x z True d(5) [OF q] show ?thesis by (simp add: d(2))
      next
        case False
        show ?thesis
        proof (cases "x = Obj q")
          case True
          with o have "count_list rest (Obj q) = 0" by (simp add: c split: if_splits)
          with False show ?thesis by (simp add: d(2))
        next
          case ne: False
          with o have "count_list rest (Obj q) \<le> (if truthy (data (objs w ! q)) then 1 else 0)"
            by (simp add: c)
          with False ne d(5) [OF q] show ?thesis by (simp add: d(2))
        qed
      qed
    qed
  qed
qed

lemma cache_tidy_front:
  assumes "cache_tidy w" and "r < length (objs w)" and "cache_ref w = x # rest"
    and "msgpack_loads deser_opts (ser_data (objs w ! r)) = Inr v" and "truthy v"
  shows "\<not> (\<not> truthy (data (objs w ! r)) \<and> x = Obj r)"
proof
  assume a: "\<not> truthy (data (objs w ! r)) \<and> x = Obj r"
  from assms(4,5) have "payload_truthy w r" by (simp add: payload_truthy_def)
  with assms(1,2) have "count_list (cache_ref w) (Obj r) \<le> (if truthy (data (objs w ! r)) then 1 else 0)"
    by (simp add: cache_tidy_iff)
  with a assms(3) show False by simp
qed


section \<open>The cache claims at concrete records\<close>

lemma loads_a1:
  "msgpack_loads deser_opts [0x81, 0xa1, 0x61, 0x01] = Inr (PFrozenDict [(PStr ''a'', PInt 1)])"
  by (simp add: msgpack_loads_def unpack_eval)


lemma many_records_fresh:
  "\<forall>a\<in>set [0..<n]. fresh (many_records n) (\<lambda>a. PFrozenDict [(PStr ''a'', PInt 1)]) a"
  by (simp add: fresh_def many_records_def loads_a1)

lemma many_records_inv: "cache_inv (many_records n)"
  by (simp add: cache_inv_iff many_records_def)

theorem cache_bound_and_redecode_witness:
  "cache_inv (many_records 101) \<and> distinct [0..<101] \<and> cache_len < length [0..<101]
   \<and> fst (deser_seq (many_records 101) (take 101 [0..<101])) = None
   \<and> length (decoded_refs (snd (deser_seq (many_records 101) (take 101 [0..<101])))) \<le> cache_len
   \<and> data (objs (snd (deser_seq (many_records 101) [0..<101])) ! ([0..<101] ! 0)) = PNone
   \<and> fst (deser (snd (deser_seq (many_records 101) [0..<101])) ([0..<101] ! 0)) = None
   \<and> msgpack_loads deser_opts
        (ser_data (objs (snd (deser_seq (many_records 101) [0..<101])) ! ([0..<101] ! 0)))
      = Inr (data (objs (snd (deser (snd (deser_seq (many_records 101) [0..<101])) ([0..<101] ! 0)))
               ! ([0..<101] ! 0)))"
proof -
  let ?w = "many_records 101"
  let ?rs = "[0..<101]"
  have inv: "cache_inv ?w" by (rule many_records_inv)
  have dist: "distinct ?rs" by simp
  have n: "cache_len < length ?rs" by (simp add: cache_len_def)
  note T = cache_bound_and_redecode [OF inv dist many_records_fresh n]
  have k: "101 \<le> length ?rs" by simp
  have i: "0 < length ?rs - cache_len" by (simp add: cache_len_def)
  from T k i inv dist n show ?thesis by blast
qed

theorem fifo_eviction_witness:
  "length (cache_ref (many_records 101)) = cache_len \<and> distinct [0..<101]
   \<and> length [0..<101] = Suc cache_len
   \<and> fst (deser_seq (many_records 101) [0..<101]) = None
   \<and> data (objs (snd (deser_seq (many_records 101) (take 100 [0..<101]))) ! ([0..<101] ! 0))
       = PFrozenDict [(PStr ''a'', PInt 1)]
   \<and> data (objs (snd (deser_seq (many_records 101) [0..<101])) ! ([0..<101] ! 0)) = PNone
   \<and> data (objs (snd (deser_seq (many_records 101) [0..<101])) ! 50)
       = data (objs (snd (deser_seq (many_records 101) (take cache_len [0..<101]))) ! 50)
   \<and> deser_seq (many_records 101) [0..<101]
       = deser (snd (deser_seq (many_records 101) (take cache_len [0..<101]))) ([0..<101] ! cache_len)"
proof -
  let ?w = "many_records 101"
  let ?rs = "[0..<101]"
  have clen: "length (cache_ref ?w) = cache_len" by (simp add: many_records_def)
  have dist: "distinct ?rs" by simp
  have len: "length ?rs = Suc cache_len" by (simp add: cache_len_def)
  note T = fifo_eviction [OF clen dist len many_records_fresh]
  have k: "0 < (100::nat) \<and> 100 \<le> cache_len" by (simp add: cache_len_def)
  have q: "50 < length (objs ?w)" "50 \<noteq> ?rs ! 0" "50 \<noteq> ?rs ! cache_len"
    by (simp_all add: many_records_def cache_len_def)
  from T k q clen dist len show ?thesis by blast
qed





section \<open>Unpacking what the packer wrote\<close>

lemma length_be_bytes [simp]: "length (be_bytes n x) = n"
  by (induction n) auto

lemma unat_byte_of_nat: "unat (of_nat k :: byte) = k mod 256"
  by (simp add: unat_of_nat)

lemma foldl_be_bytes:
  "foldl (\<lambda>a b. a * 256 + unat (b :: byte)) a (be_bytes n x) = a * 256 ^ n + x mod 256 ^ n"
proof (induction n arbitrary: a)
  case 0
  then show ?case by simp
next
  case (Suc n)
  let ?f = "\<lambda>a (b :: byte). a * 256 + unat b"
  have m: "x mod 256 ^ Suc n = 256 ^ n * (x div 256 ^ n mod 256) + x mod 256 ^ n"
    by (simp only: power_Suc2 mod_mult2_eq)
  have "foldl ?f a (be_bytes (Suc n) x)
      = foldl ?f (a * 256 + x div 256 ^ n mod 256) (be_bytes n x)"
    by (simp add: unat_byte_of_nat)
  also have "\<dots> = (a * 256 + x div 256 ^ n mod 256) * 256 ^ n + x mod 256 ^ n"
    by (rule Suc)
  also have "\<dots> = a * 256 ^ Suc n + x mod 256 ^ Suc n"
    unfolding m by (simp add: algebra_simps)
  finally show ?case .
qed

lemma be_nat_be_bytes: "x < 256 ^ n \<Longrightarrow> be_nat (be_bytes n x) = x"
  by (simp add: be_nat_def foldl_be_bytes)

lemma length_be_signed [simp]: "length (be_signed n i) = n"
  by (simp add: be_signed_def)

lemma be_int_be_signed:
  assumes "0 < n" and "- (256 ^ n) \<le> 2 * i" and "2 * i < 256 ^ n"
  shows "be_int (be_signed n i) = i"
proof -
  let ?m = "(256::int) ^ n"
  have pos: "0 < ?m" by simp
  have lt: "nat (i mod ?m) < 256 ^ n"
    using pos by (metis (no_types) Euclidean_Rings.pos_mod_bound nat_less_numeral_power_cancel_iff)
  have u: "int (be_nat (be_signed n i)) = i mod ?m"
    using pos by (simp add: be_signed_def be_nat_be_bytes [OF lt])
  show ?thesis
  proof (cases "0 \<le> i")
    case True
    with assms have "i mod ?m = i" by simp
    with assms show ?thesis by (simp add: be_int_def Let_def u)
  next
    case False
    with assms have "i mod ?m = i + ?m"
      by (smt (verit) mod_add_self2 mod_pos_pos_trivial)
    with assms False show ?thesis by (simp add: be_int_def Let_def u)
  qed
qed

lemma read_be_be_bytes: "x < 256 ^ n \<Longrightarrow> read_be n (be_bytes n x @ r) = Ok x r"
  by (simp add: read_be_def be_nat_be_bytes)

lemma read_len_be_bytes:
  "x < 256 ^ n \<Longrightarrow> x \<le> max_len \<Longrightarrow> read_len mk n (be_bytes n x @ r) = Ok (mk x) r"
  by (simp add: read_len_def read_be_be_bytes)

lemma read_uint_be_bytes:
  "x < 256 ^ n \<Longrightarrow> read_uint n (be_bytes n x @ r) = Ok (TVal (PInt (int x))) r"
  by (simp add: read_uint_def read_be_be_bytes)

lemma read_signed_be_signed:
  "0 < n \<Longrightarrow> - (256 ^ n) \<le> 2 * i \<Longrightarrow> 2 * i < 256 ^ n
   \<Longrightarrow> read_signed n (be_signed n i @ r) = Ok (TVal (PInt i)) r"
  by (simp add: read_signed_def be_int_be_signed)

lemma read_header_array:
  "pack_array_header n = Inr h \<Longrightarrow> n \<le> max_len \<Longrightarrow> read_header (h @ r) = Ok (TArray n) r"
  by (auto simp: pack_array_header_def read_header_def Let_def unat_byte_of_nat read_len_be_bytes
      simp del: of_nat_add be_bytes.simps split: if_splits)

lemma read_header_map:
  "pack_map_header n = Inr h \<Longrightarrow> n \<le> max_len \<Longrightarrow> read_header (h @ r) = Ok (TMap n) r"
  by (auto simp: pack_map_header_def read_header_def Let_def unat_byte_of_nat read_len_be_bytes
      simp del: of_nat_add be_bytes.simps split: if_splits)

lemma read_header_raw:
  "pack_raw_header n = Inr h \<Longrightarrow> n \<le> max_len \<Longrightarrow> read_header (h @ r) = Ok (TStr n) r"
  by (auto simp: pack_raw_header_def read_header_def Let_def unat_byte_of_nat read_len_be_bytes
      simp del: of_nat_add be_bytes.simps split: if_splits)

lemma read_header_bin:
  "pack_bin_header n = Inr h \<Longrightarrow> n \<le> max_len \<Longrightarrow> read_header (h @ r) = Ok (TBin n) r"
  by (auto simp: pack_bin_header_def read_header_def Let_def unat_byte_of_nat read_len_be_bytes
      simp del: of_nat_add be_bytes.simps split: if_splits)

lemma unat_byte_small: "k < 256 \<Longrightarrow> unat (of_nat k :: byte) = k"
  by (simp add: unat_byte_of_nat)

lemma read_header_fixint:
  assumes "- 32 \<le> i" and "i < 128"
  shows "read_header (be_signed (Suc 0) i @ r) = Ok (TVal (PInt i)) r"
proof (cases "0 \<le> i")
  case True
  let ?k = "nat i"
  from True assms have "i mod 256 = i" by simp
  then have b: "be_signed (Suc 0) i = [of_nat ?k]" by (simp add: be_signed_def)
  from True assms have "?k < 256" by simp
  then have u: "unat (of_nat ?k :: byte) = ?k" by (rule unat_byte_small)
  from True assms have k: "?k < 128" "int ?k = i" by simp_all
  show ?thesis unfolding b
    using k by (simp add: read_header_def Let_def u del: of_nat_nat)
next
  case False
  let ?k = "nat (i + 256)"
  from False assms have "i mod 256 = i + 256"
    by (smt (verit) mod_add_self2 mod_pos_pos_trivial)
  then have b: "be_signed (Suc 0) i = [of_nat ?k]" by (simp add: be_signed_def)
  from False assms have "?k < 256" by simp
  then have u: "unat (of_nat ?k :: byte) = ?k" by (rule unat_byte_small)
  from False assms have k: "224 \<le> ?k" "int ?k - 256 = i" by simp_all
  show ?thesis unfolding b
    using k by (simp add: read_header_def Let_def u del: of_nat_nat)
qed

lemma read_header_int:
  assumes "pack_int i = Inr bs"
  shows "read_header (bs @ r) = Ok (TVal (PInt i)) r"
proof -
  consider "- 32 \<le> i \<and> i < 128" "bs = be_signed 1 i"
    | "0x80 \<le> i \<and> i \<le> 0xff" "bs = 0xcc # be_bytes 1 (nat i)"
    | "- 0x80 \<le> i \<and> i < - 0x20" "bs = 0xd0 # be_signed 1 i"
    | "0xff < i \<and> i \<le> 0xffff" "bs = 0xcd # be_bytes 2 (nat i)"
    | "- 0x8000 \<le> i \<and> i < - 0x80" "bs = 0xd1 # be_signed 2 i"
    | "0xffff < i \<and> i \<le> 0xffffffff" "bs = 0xce # be_bytes 4 (nat i)"
    | "- 0x80000000 \<le> i \<and> i < - 0x8000" "bs = 0xd2 # be_signed 4 i"
    | "0xffffffff < i \<and> i \<le> 0xffffffffffffffff" "bs = 0xcf # be_bytes 8 (nat i)"
    | "- 0x8000000000000000 \<le> i \<and> i < - 0x80000000" "bs = 0xd3 # be_signed 8 i"
    using assms unfolding pack_int_def by (auto split: if_splits)
  then show ?thesis
  proof cases
    case 1
    then show ?thesis by (simp add: read_header_fixint)
  next
    case 2
    then have "nat i < 256 ^ 1" by auto
    from read_uint_be_bytes [OF this, of r] 2 show ?thesis
      by (simp add: read_header_def Let_def del: be_bytes.simps)
  next
    case 3
    then have "- (256 ^ 1) \<le> 2 * i" "2 * i < 256 ^ 1" by auto
    from read_signed_be_signed [OF _ this, of r] 3 show ?thesis
      by (simp add: read_header_def Let_def)
  next
    case 4
    then have "nat i < 256 ^ 2" by auto
    from read_uint_be_bytes [OF this, of r] 4 show ?thesis
      by (simp add: read_header_def Let_def del: be_bytes.simps)
  next
    case 5
    then have "- (256 ^ 2) \<le> 2 * i" "2 * i < 256 ^ 2" by auto
    from read_signed_be_signed [OF _ this, of r] 5 show ?thesis
      by (simp add: read_header_def Let_def)
  next
    case 6
    then have "nat i < 256 ^ 4" by auto
    from read_uint_be_bytes [OF this, of r] 6 show ?thesis
      by (simp add: read_header_def Let_def del: be_bytes.simps)
  next
    case 7
    then have "- (256 ^ 4) \<le> 2 * i" "2 * i < 256 ^ 4" by auto
    from read_signed_be_signed [OF _ this, of r] 7 show ?thesis
      by (simp add: read_header_def Let_def)
  next
    case 8
    then have "nat i < 256 ^ 8" by auto
    from read_uint_be_bytes [OF this, of r] 8 show ?thesis
      by (simp add: read_header_def Let_def del: be_bytes.simps)
  next
    case 9
    then have "- (256 ^ 8) \<le> 2 * i" "2 * i < 256 ^ 8" by auto
    from read_signed_be_signed [OF _ this, of r] 9 show ?thesis
      by (simp add: read_header_def Let_def)
  qed
qed

lemma bytes_string_string_bytes [simp]: "bytes_string (string_bytes s) = s"
  by (induction s) (simp_all add: bytes_string_def string_bytes_def unat_byte_of_nat)

lemma length_string_bytes [simp]: "length (string_bytes s) = length s"
  by (simp add: string_bytes_def)

lemma join_packed_Cons:
  "join_packed (p # ps) = Inr bs \<longleftrightarrow> (\<exists>b bs'. p = Inr b \<and> join_packed ps = Inr bs' \<and> bs = b @ bs')"
  by (cases p) (auto split: sum.splits)

lemma dict_setitem_new: "k \<notin> fst ` set acc \<Longrightarrow> dict_setitem acc k v = acc @ [(k, v)]"
  by (induction acc) auto

lemma is_key_decoded: "is_key k \<Longrightarrow> decoded opts k = k"
  by (cases k) simp_all

lemma unpack_items_packed:
  assumes "\<And>x bs rest. x \<in> set xs \<Longrightarrow> pack dflt m x = Inr bs
             \<Longrightarrow> unpack opts m (bs @ rest) = Ok (decoded opts x) rest"
    and "join_packed (map (pack dflt m) xs) = Inr bs"
  shows "unpack_items opts m (length xs) (bs @ rest) = Ok (map (decoded opts) xs) rest"
  using assms
proof (induction xs arbitrary: bs)
  case Nil
  then show ?case by simp
next
  case (Cons x xs)
  from Cons.prems(2) obtain b bs' where b: "pack dflt m x = Inr b"
    and bs': "join_packed (map (pack dflt m) xs) = Inr bs'" and e: "bs = b @ bs'"
    by (auto simp: join_packed_Cons)
  have "unpack opts m (b @ bs' @ rest) = Ok (decoded opts x) (bs' @ rest)"
    by (rule Cons.prems(1) [OF _ b]) simp
  moreover have "unpack_items opts m (length xs) (bs' @ rest) = Ok (map (decoded opts) xs) rest"
    by (rule Cons.IH [OF _ bs']) (rule Cons.prems(1), auto)
  ultimately show ?case by (simp add: e)
qed

lemma unpack_pairs_packed:
  assumes "\<And>kv bs rest. kv \<in> set kvs \<Longrightarrow> pack dflt m (fst kv) = Inr bs
             \<Longrightarrow> unpack opts m (bs @ rest) = Ok (fst kv) rest"
    and "\<And>kv bs rest. kv \<in> set kvs \<Longrightarrow> pack dflt m (snd kv) = Inr bs
             \<Longrightarrow> unpack opts m (bs @ rest) = Ok (decoded opts (snd kv)) rest"
    and "join_packed (concat (map (\<lambda>kv. [pack dflt m (fst kv), pack dflt m (snd kv)]) kvs)) = Inr bs"
    and "distinct (map fst kvs)" and "fst ` set kvs \<inter> fst ` set acc = {}"
    and "\<forall>kv\<in>set kvs. is_key (fst kv)"
  shows "unpack_pairs opts m (length kvs) (bs @ rest) acc
           = Ok (acc @ map (\<lambda>kv. (fst kv, decoded opts (snd kv))) kvs) rest"
  using assms
proof (induction kvs arbitrary: bs acc)
  case Nil
  then show ?case by simp
next
  case (Cons kv kvs)
  from Cons.prems(3) obtain bk bv bs' where bk: "pack dflt m (fst kv) = Inr bk"
    and bv: "pack dflt m (snd kv) = Inr bv"
    and bs': "join_packed (concat (map (\<lambda>kv. [pack dflt m (fst kv), pack dflt m (snd kv)]) kvs)) = Inr bs'"
    and e: "bs = bk @ bv @ bs'"
    by (auto simp: join_packed_Cons)
  have k: "unpack opts m (bk @ bv @ bs' @ rest) = Ok (fst kv) (bv @ bs' @ rest)"
    by (rule Cons.prems(1) [OF _ bk]) simp
  have v: "unpack opts m (bv @ bs' @ rest) = Ok (decoded opts (snd kv)) (bs' @ rest)"
    by (rule Cons.prems(2) [OF _ bv]) simp
  from Cons.prems(5) have new: "fst kv \<notin> fst ` set acc" by auto
  let ?acc = "acc @ [(fst kv, decoded opts (snd kv))]"
  have p1: "\<And>kv' bs rest. kv' \<in> set kvs \<Longrightarrow> pack dflt m (fst kv') = Inr bs
             \<Longrightarrow> unpack opts m (bs @ rest) = Ok (fst kv') rest"
    using Cons.prems(1) by simp
  have p2: "\<And>kv' bs rest. kv' \<in> set kvs \<Longrightarrow> pack dflt m (snd kv') = Inr bs
             \<Longrightarrow> unpack opts m (bs @ rest) = Ok (decoded opts (snd kv')) rest"
    using Cons.prems(2) by simp
  have p4: "distinct (map fst kvs)" using Cons.prems(4) by simp
  have p5: "fst ` set kvs \<inter> fst ` set ?acc = {}" using Cons.prems(4,5) by auto
  have p6: "\<forall>kv\<in>set kvs. is_key (fst kv)" using Cons.prems(6) by simp
  have "unpack_pairs opts m (length kvs) (bs' @ rest) ?acc
      = Ok (?acc @ map (\<lambda>kv. (fst kv, decoded opts (snd kv))) kvs) rest"
    by (rule Cons.IH [OF p1 p2 bs' p4 p5 p6])
  with k v new Cons.prems(6) show ?case
    by (simp add: e dict_setitem_new)
qed

lemma unpack_array:
  assumes h: "read_header bs = Ok (TArray k) r"
    and items: "unpack_items opts m k r = Ok xs r'"
  shows "unpack opts (Suc m) bs = Ok (mk_array opts xs) r'"
  by (subst unpack.simps) (simp add: h items)

lemma unpack_map:
  assumes h: "read_header bs = Ok (TMap k) r"
    and items: "unpack_pairs opts m k r [] = Ok kvs r'"
  shows "unpack opts (Suc m) bs = Ok (mk_map opts kvs) r'"
  by (subst unpack.simps) (simp add: h items)

lemma unpack_empty_array:
  "read_header bs = Ok (TArray 0) r \<Longrightarrow> unpack opts n bs = Ok (mk_array opts []) r"
  by (subst unpack.simps) (simp split: nat.splits)

lemma unpack_empty_map:
  "read_header bs = Ok (TMap 0) r \<Longrightarrow> unpack opts n bs = Ok (mk_map opts []) r"
  by (subst unpack.simps) (simp split: nat.splits)

lemma unpack_val:
  "read_header bs = Ok (TVal v) r \<Longrightarrow> unpack opts n bs = Ok v r"
  by (subst unpack.simps) simp

lemma unpack_pack_list:
  assumes ih: "\<forall>m x bs rest. n = Suc m \<longrightarrow> x \<in> set xs \<longrightarrow> modelled x \<longrightarrow> pack dflt m x = Inr bs
                 \<longrightarrow> unpack opts m (bs @ rest) = Ok (decoded opts x) rest"
    and m: "length xs \<le> max_len" "list_all modelled xs"
    and p: "(case n of
               0 \<Rightarrow> (if xs = [] then pack_array_header 0 else Inl ValueError)
             | Suc m \<Rightarrow> join_packed (pack_array_header (length xs) # map (pack dflt m) xs)) = Inr bs"
  shows "unpack opts n (bs @ rest) = Ok (mk_array opts (map (decoded opts) xs)) rest"
proof (cases n)
  case 0
  with p have e: "xs = []" and h: "pack_array_header 0 = Inr bs" by (auto split: if_splits)
  from read_header_array [OF h, of rest] have "read_header (bs @ rest) = Ok (TArray 0) rest"
    by (simp add: max_len_def)
  then show ?thesis by (simp add: unpack_empty_array e)
next
  case (Suc k)
  with p obtain h bs' where h: "pack_array_header (length xs) = Inr h"
    and bs': "join_packed (map (pack dflt k) xs) = Inr bs'" and e: "bs = h @ bs'"
    by (auto simp: join_packed_Cons)
  from read_header_array [OF h m(1), of "bs' @ rest"]
  have rh: "read_header (bs @ rest) = Ok (TArray (length xs)) (bs' @ rest)" by (simp add: e)
  have "unpack_items opts k (length xs) (bs' @ rest) = Ok (map (decoded opts) xs) rest"
  proof (rule unpack_items_packed [OF _ bs'])
    fix x bs rest assume "x \<in> set xs" "pack dflt k x = Inr bs"
    with m(2) have "modelled x" by (simp add: list_all_iff)
    with ih Suc \<open>x \<in> set xs\<close> \<open>pack dflt k x = Inr bs\<close>
    show "unpack opts k (bs @ rest) = Ok (decoded opts x) rest" by blast
  qed
  with rh show ?thesis unfolding Suc by (rule unpack_array)
qed

lemma unpack_pack_dict:
  assumes ihk: "\<forall>m kv bs rest. n = Suc m \<longrightarrow> kv \<in> set kvs \<longrightarrow> modelled (fst kv)
                 \<longrightarrow> pack dflt m (fst kv) = Inr bs
                 \<longrightarrow> unpack opts m (bs @ rest) = Ok (decoded opts (fst kv)) rest"
    and ihv: "\<forall>m kv bs rest. n = Suc m \<longrightarrow> kv \<in> set kvs \<longrightarrow> modelled (snd kv)
                 \<longrightarrow> pack dflt m (snd kv) = Inr bs
                 \<longrightarrow> unpack opts m (bs @ rest) = Ok (decoded opts (snd kv)) rest"
    and m: "length kvs \<le> max_len" "distinct (map fst kvs)"
      "list_all (\<lambda>kv. is_key (fst kv) \<and> modelled (fst kv) \<and> modelled (snd kv)) kvs"
    and p: "(case n of
               0 \<Rightarrow> (if kvs = [] then pack_map_header 0 else Inl ValueError)
             | Suc m \<Rightarrow> join_packed (pack_map_header (length kvs) #
                  concat (map (\<lambda>kv. [pack dflt m (fst kv), pack dflt m (snd kv)]) kvs))) = Inr bs"
  shows "unpack opts n (bs @ rest)
           = Ok (mk_map opts (map (\<lambda>kv. (fst kv, decoded opts (snd kv))) kvs)) rest"
proof (cases n)
  case 0
  with p have e: "kvs = []" and h: "pack_map_header 0 = Inr bs" by (auto split: if_splits)
  from read_header_map [OF h, of rest] have "read_header (bs @ rest) = Ok (TMap 0) rest"
    by (simp add: max_len_def)
  then show ?thesis by (simp add: unpack_empty_map e)
next
  case (Suc k)
  with p obtain h bs' where h: "pack_map_header (length kvs) = Inr h"
    and bs': "join_packed (concat (map (\<lambda>kv. [pack dflt k (fst kv), pack dflt k (snd kv)]) kvs)) = Inr bs'"
    and e: "bs = h @ bs'"
    by (auto simp: join_packed_Cons)
  from read_header_map [OF h m(1), of "bs' @ rest"]
  have rh: "read_header (bs @ rest) = Ok (TMap (length kvs)) (bs' @ rest)" by (simp add: e)
  have keys: "\<forall>kv\<in>set kvs. is_key (fst kv)" using m(3) by (simp add: list_all_iff)
  have "unpack_pairs opts k (length kvs) (bs' @ rest) []
      = Ok ([] @ map (\<lambda>kv. (fst kv, decoded opts (snd kv))) kvs) rest"
  proof (rule unpack_pairs_packed [OF _ _ bs' m(2) _ keys])
    fix kv bs rest assume kv: "kv \<in> set kvs" and pk: "pack dflt k (fst kv) = Inr bs"
    with m(3) have mk: "modelled (fst kv)" and ik: "is_key (fst kv)" by (auto simp: list_all_iff)
    from ihk Suc kv mk pk have "unpack opts k (bs @ rest) = Ok (decoded opts (fst kv)) rest"
      by blast
    with ik show "unpack opts k (bs @ rest) = Ok (fst kv) rest"
      by (simp add: is_key_decoded)
  next
    fix kv bs rest assume kv: "kv \<in> set kvs" and pv: "pack dflt k (snd kv) = Inr bs"
    with m(3) have "modelled (snd kv)" by (auto simp: list_all_iff)
    with ihv Suc kv pv
    show "unpack opts k (bs @ rest) = Ok (decoded opts (snd kv)) rest" by blast
  qed simp
  then have "unpack_pairs opts k (length kvs) (bs' @ rest) []
      = Ok (map (\<lambda>kv. (fst kv, decoded opts (snd kv))) kvs) rest" by simp
  with rh show ?thesis unfolding Suc by (rule unpack_map)
qed

lemma unat_64_bound: "unat (w :: 64 word) < 256 ^ 8"
proof -
  have "unat w < 2 ^ 64" using unsigned_less [of w] by simp
  then show ?thesis by simp
qed

lemma read_header_float:
  "read_header (0xcb # be_bytes 8 (unat (w :: 64 word)) @ r) = Ok (TVal (PFloat w)) r"
proof -
  have h: "read_header (0xcb # be_bytes 8 (unat w) @ r) = read_float64 (be_bytes 8 (unat w) @ r)"
    by (simp add: read_header_def Let_def del: be_bytes.simps)
  show ?thesis unfolding h read_float64_def read_be_be_bytes [OF unat_64_bound]
    by simp
qed

lemma unpack_pack_none: "unpack opts n ([0xc0] @ rest) = Ok PNone rest"
  by (rule unpack_val) (simp add: read_header_def)

lemma unpack_pack_bool: "unpack opts n ([if b then 0xc3 else 0xc2] @ rest) = Ok (PBool b) rest"
  by (rule unpack_val) (simp add: read_header_def)

lemma unpack_pack_int:
  assumes "pack dflt n (PInt i) = Inr bs"
  shows "unpack opts n (bs @ rest) = Ok (PInt i) rest"
proof -
  from assms have "pack_int i = Inr bs"
    by (cases "pack_int i") (auto split: option.splits if_splits)
  then show ?thesis by (intro unpack_val read_header_int)
qed

lemma unpack_pack_bytes:
  assumes "pack dflt n (PBytes b) = Inr bs" and "length b \<le> max_len"
  shows "unpack opts n (bs @ rest) = Ok (PBytes b) rest"
proof -
  from assms(1) obtain h where h: "pack_bin_header (length b) = Inr h" and e: "bs = h @ b"
    by (auto simp: join_packed_Cons)
  from read_header_bin [OF h assms(2), of "b @ rest"] show ?thesis
    by (subst unpack.simps) (simp add: e)
qed

lemma unpack_pack_str:
  assumes "pack dflt n (PStr s) = Inr bs" and "length s \<le> max_len"
    and "utf8_valid (string_bytes s)" and "\<not> raw opts"
  shows "unpack opts n (bs @ rest) = Ok (PStr s) rest"
proof -
  from assms(1) obtain h where h: "pack_raw_header (length s) = Inr h"
    and e: "bs = h @ string_bytes s"
    by (auto simp: join_packed_Cons)
  from read_header_raw [OF h assms(2), of "string_bytes s @ rest"] assms(3,4) show ?thesis
    by (subst unpack.simps) (simp add: e)
qed

lemma unpack_pack_float:
  "unpack opts n ((0xcb # be_bytes 8 (unat w)) @ rest) = Ok (PFloat w) rest"
  unfolding append_Cons by (rule unpack_val) (rule read_header_float)

text \<open>
  The round trip of the library, as modelled: unpacking what the packer wrote for a value
  gives the value back, with its arrays and maps built as the options say, and leaves the
  input that followed.
\<close>

lemma unpack_pack:
  assumes "\<not> raw opts"
  shows "modelled v \<Longrightarrow> pack dflt n v = Inr bs
         \<Longrightarrow> unpack opts n (bs @ rest) = Ok (decoded opts v) rest"
proof (induction dflt n v arbitrary: bs rest rule: pack.induct)
  case (1 dflt n)
  from "1.prems"(2) have "bs = [0xc0]" by simp
  then show ?case by (simp only: unpack_pack_none decoded.simps)
next
  case (2 dflt n b)
  from "2.prems"(2) have "bs = [if b then 0xc3 else 0xc2]" by (simp only: pack.simps sum.inject)
  then show ?case by (simp only: unpack_pack_bool decoded.simps)
next
  case (3 dflt n i)
  from unpack_pack_int [OF "3.prems"(2)] show ?case by (simp only: decoded.simps)
next
  case (4 dflt n b)
  from "4.prems"(1) have "length b \<le> max_len" by simp
  from unpack_pack_bytes [OF "4.prems"(2) this] show ?case by (simp only: decoded.simps)
next
  case (5 dflt n s)
  from "5.prems"(1) have "length s \<le> max_len" "utf8_valid (string_bytes s)" by simp_all
  from unpack_pack_str [OF "5.prems"(2) this assms] show ?case by (simp only: decoded.simps)
next
  case (6 dflt n w)
  from "6.prems"(2) have "bs = 0xcb # be_bytes 8 (unat w)" by (simp only: pack.simps sum.inject)
  then show ?case by (simp only: unpack_pack_float decoded.simps)
next
  case (7 dflt n xs)
  from "7.prems"(1) have m: "length xs \<le> max_len" "list_all modelled xs" by simp_all
  from "7.prems"(2) have p: "(case n of
               0 \<Rightarrow> (if xs = [] then pack_array_header 0 else Inl ValueError)
             | Suc m \<Rightarrow> join_packed (pack_array_header (length xs) # map (pack dflt m) xs)) = Inr bs"
    by (simp only: pack.simps)
  have ih: "\<forall>m x bs rest. n = Suc m \<longrightarrow> x \<in> set xs \<longrightarrow> modelled x \<longrightarrow> pack dflt m x = Inr bs
                 \<longrightarrow> unpack opts m (bs @ rest) = Ok (decoded opts x) rest"
    using "7.IH" by blast
  from unpack_pack_list [OF ih m p] show ?case by (simp only: decoded.simps)
next
  case (8 dflt n xs)
  from "8.prems"(1) have m: "length xs \<le> max_len" "list_all modelled xs" by simp_all
  from "8.prems"(2) have p: "(case n of
               0 \<Rightarrow> (if xs = [] then pack_array_header 0 else Inl ValueError)
             | Suc m \<Rightarrow> join_packed (pack_array_header (length xs) # map (pack dflt m) xs)) = Inr bs"
    by (simp only: pack.simps)
  have ih: "\<forall>m x bs rest. n = Suc m \<longrightarrow> x \<in> set xs \<longrightarrow> modelled x \<longrightarrow> pack dflt m x = Inr bs
                 \<longrightarrow> unpack opts m (bs @ rest) = Ok (decoded opts x) rest"
    using "8.IH" by blast
  from unpack_pack_list [OF ih m p] show ?case by (simp only: decoded.simps)
next
  case (9 dflt n kvs)
  from "9.prems"(1) have m: "length kvs \<le> max_len" "distinct (map fst kvs)"
      "list_all (\<lambda>kv. is_key (fst kv) \<and> modelled (fst kv) \<and> modelled (snd kv)) kvs" by simp_all
  from "9.prems"(2) have p: "(case n of
               0 \<Rightarrow> (if kvs = [] then pack_map_header 0 else Inl ValueError)
             | Suc m \<Rightarrow> join_packed (pack_map_header (length kvs) #
                  concat (map (\<lambda>kv. [pack dflt m (fst kv), pack dflt m (snd kv)]) kvs))) = Inr bs"
    by (simp only: pack.simps)
  have ihk: "\<forall>m kv bs rest. n = Suc m \<longrightarrow> kv \<in> set kvs \<longrightarrow> modelled (fst kv)
                 \<longrightarrow> pack dflt m (fst kv) = Inr bs
                 \<longrightarrow> unpack opts m (bs @ rest) = Ok (decoded opts (fst kv)) rest"
    using "9.IH"(1) by blast
  have ihv: "\<forall>m kv bs rest. n = Suc m \<longrightarrow> kv \<in> set kvs \<longrightarrow> modelled (snd kv)
                 \<longrightarrow> pack dflt m (snd kv) = Inr bs
                 \<longrightarrow> unpack opts m (bs @ rest) = Ok (decoded opts (snd kv)) rest"
    using "9.IH"(2) by blast
  from unpack_pack_dict [OF ihk ihv m p] show ?case by (simp only: decoded.simps)
next
  case (10 dflt n kvs)
  from "10.prems"(1) have m: "length kvs \<le> max_len" "distinct (map fst kvs)"
      "list_all (\<lambda>kv. is_key (fst kv) \<and> modelled (fst kv) \<and> modelled (snd kv)) kvs" by simp_all
  from "10.prems"(2) have p: "(case n of
               0 \<Rightarrow> (if kvs = [] then pack_map_header 0 else Inl ValueError)
             | Suc m \<Rightarrow> join_packed (pack_map_header (length kvs) #
                  concat (map (\<lambda>kv. [pack dflt m (fst kv), pack dflt m (snd kv)]) kvs))) = Inr bs"
    by (simp only: pack.simps)
  have ihk: "\<forall>m kv bs rest. n = Suc m \<longrightarrow> kv \<in> set kvs \<longrightarrow> modelled (fst kv)
                 \<longrightarrow> pack dflt m (fst kv) = Inr bs
                 \<longrightarrow> unpack opts m (bs @ rest) = Ok (decoded opts (fst kv)) rest"
    using "10.IH"(1) by blast
  have ihv: "\<forall>m kv bs rest. n = Suc m \<longrightarrow> kv \<in> set kvs \<longrightarrow> modelled (snd kv)
                 \<longrightarrow> pack dflt m (snd kv) = Inr bs
                 \<longrightarrow> unpack opts m (bs @ rest) = Ok (decoded opts (snd kv)) rest"
    using "10.IH"(2) by blast
  from unpack_pack_dict [OF ihk ihv m p] show ?case by (simp only: decoded.simps)
qed

section \<open>save\_object, then load\_object\<close>

lemma decoded_plain:
  "use_list opts \<Longrightarrow> object_hook opts = None \<Longrightarrow> plain v \<Longrightarrow> decoded opts v = v"
proof (induction opts v rule: decoded.induct)
  case (1 opts xs)
  then have "map (decoded opts) xs = xs" by (simp add: list_all_iff map_idI)
  with 1 show ?case by (simp add: mk_array_def)
next
  case (3 opts kvs)
  then have "map (\<lambda>kv. (fst kv, decoded opts (snd kv))) kvs = kvs"
    by (simp add: list_all_iff map_idI)
  with 3 show ?case by (simp add: mk_map_def)
qed simp_all

lemma msgpack_loads_pack:
  assumes "\<not> raw opts" and "modelled v" and "pack dflt nest_limit v = Inr bs"
  shows "msgpack_loads opts bs = Inr (decoded opts v)"
  using unpack_pack [OF assms, of "[]"] by (simp add: msgpack_loads_def)

text \<open>
  What \<open>load_object\<close> returns for a file that \<open>save_object\<close> wrote: the value with every
  tuple turned into a list and every \<^verbatim>\<open>FrozenDict\<close> into a dict.
\<close>

lemma load_after_save:
  assumes "modelled v" and "fst (save_object env v path) = None"
  shows "load_object (snd (save_object env v path)) path allow_legacy = Inr (decoded load_opts v)"
proof -
  from assms(2) obtain bs where p: "pack (Some ndarrray_to_list) nest_limit v = Inr bs"
    by (cases "pack (Some ndarrray_to_list) nest_limit v") (auto simp: save_object_def Let_def)
  have r: "\<not> raw load_opts" by (simp add: load_opts_def)
  from msgpack_loads_pack [OF r assms(1) p] p show ?thesis
    by (simp add: save_object_def load_object_def Let_def)
qed

lemma load_after_save_plain:
  assumes "modelled v" and "plain v" and "fst (save_object env v path) = None"
  shows "load_object (snd (save_object env v path)) path allow_legacy = Inr v"
proof -
  have "decoded load_opts v = v"
    by (rule decoded_plain [OF _ _ assms(2)]) (simp_all add: load_opts_def)
  with load_after_save [OF assms(1,3)] show ?thesis by simp
qed

text \<open>
  Claim C8, amended: for a value made of \<^verbatim>\<open>None\<close>, booleans, integers, floats, strings,
  bytes, lists and dicts (with distinct \<^verbatim>\<open>str\<close> or \<^verbatim>\<open>bytes\<close> keys), \<open>load_object\<close> after a
  \<open>save_object\<close> that returned normally, on the same path, returns the value itself,
  numbers included.
\<close>

theorem save_then_load:
  assumes "modelled v" and "plain v" and "fst (save_object env v path) = None"
  shows "load_object (snd (save_object env v path)) path allow_legacy = Inr v"
  using assms by (rule load_after_save_plain)

text \<open>
  Claim C8, as stated, covers every sequence. \<open>load_object\<close> unpacks with msgpack's
  default \<^verbatim>\<open>use_list\<close>: the tuple \<^verbatim>\<open>(1, 2)\<close> is saved without an exception and comes back as
  the list \<^verbatim>\<open>[1, 2]\<close>, which is not equal to it.
\<close>

theorem tuple_comes_back_as_list:
  "fst (save_object no_files (PTuple [PInt 1, PInt 2]) ''settings'') = None
   \<and> load_object (snd (save_object no_files (PTuple [PInt 1, PInt 2]) ''settings'')) ''settings'' True
       = Inr (PList [PInt 1, PInt 2])"
  by (simp add: save_object_def load_object_def load_object_legacy_def Let_def no_files_def
      ndarrray_to_list_def msgpack_loads_def pack_eval unpack_eval)

lemma sample_modelled: "modelled sample_settings"
  by (simp add: sample_settings_def string_bytes_def in_range_def max_len_def)

lemma sample_plain: "plain sample_settings"
  by (simp add: sample_settings_def)

lemma sample_saved: "fst (save_object no_files sample_settings ''settings'') = None"
  by (simp add: sample_settings_def save_object_def Let_def no_files_def pack_eval)

theorem save_then_load_witness:
  "modelled sample_settings \<and> plain sample_settings
   \<and> fst (save_object no_files sample_settings ''settings'') = None
   \<and> load_object (snd (save_object no_files sample_settings ''settings'')) ''settings'' True
       = Inr sample_settings"
  using save_then_load [OF sample_modelled sample_plain sample_saved, of True]
    sample_modelled sample_plain sample_saved by simp

section \<open>Persistent\_Dict on a legacy file\<close>

text \<open>msgpack reads the first byte as an empty map and finds data after it.\<close>

lemma legacy_file_rejected:
  "msgpack_loads load_opts
     [0x80, 0x03, 0x7d, 0x71, 0x00, 0x58, 0x01, 0x00, 0x00, 0x00, 0x61, 0x71, 0x01, 0x4b, 0x01, 0x73, 0x2e]
   = Inl ExtraData"
  by (simp add: msgpack_loads_def unpack_eval)

text \<open>
  Claim C4, as stated, has \<^verbatim>\<open>Persistent_Dict\<close> load a legacy file through the legacy decoder
  and \<^verbatim>\<open>save()\<close> rewrite the loaded mapping. \<^verbatim>\<open>__init__\<close> calls \<open>load_object\<close> with
  \<^verbatim>\<open>allow_legacy=False\<close>: on the file above, the pickle of \<^verbatim>\<open>{'a': 1}\<close>, the store comes up
  empty, \<^verbatim>\<open>save()\<close> then writes the empty mapping over the file, and what the primary decoder
  reads back is \<^verbatim>\<open>{}\<close>. \<open>load_object\<close> with \<^verbatim>\<open>allow_legacy=True\<close> does not load the file
  either: it raises \<^verbatim>\<open>TypeError\<close>.
\<close>

theorem legacy_file_not_loaded:
  "Persistent_Dict_init legacy_env ''settings'' []
       = Inr \<lparr>pd_file_path = ''settings'', pd_items = []\<rparr>
   \<and> fst (Persistent_Dict_save legacy_env \<lparr>pd_file_path = ''settings'', pd_items = []\<rparr>) = None
   \<and> files (snd (Persistent_Dict_save legacy_env \<lparr>pd_file_path = ''settings'', pd_items = []\<rparr>))
        ''settings'' = Some [0x80]
   \<and> load_object (snd (Persistent_Dict_save legacy_env \<lparr>pd_file_path = ''settings'', pd_items = []\<rparr>))
        ''settings'' False = Inr (PDict [])
   \<and> load_object legacy_env ''settings'' True = Inl TypeError"
  by (simp add: load_object_legacy_def Persistent_Dict_init_def Persistent_Dict_save_def
      load_object_def save_object_def dict_update_def Let_def legacy_env_def
      legacy_file_rejected msgpack_loads_def load_opts_def pack_eval unpack_eval)

lemma dict_update_append:
  "distinct (map fst kvs) \<Longrightarrow> fst ` set kvs \<inter> fst ` set acc = {}
   \<Longrightarrow> dict_update acc kvs = acc @ kvs"
proof (induction kvs arbitrary: acc)
  case Nil
  then show ?case by (simp add: dict_update_def)
next
  case (Cons kv kvs)
  then have new: "fst kv \<notin> fst ` set acc" by auto
  have "dict_update acc (kv # kvs) = dict_update (acc @ [kv]) kvs"
    by (simp add: dict_update_def dict_setitem_new [OF new])
  also have "\<dots> = (acc @ [kv]) @ kvs"
    using Cons.prems by (intro Cons.IH) auto
  finally show ?case by simp
qed

lemma dict_update_distinct: "distinct (map fst kvs) \<Longrightarrow> dict_update [] kvs = kvs"
  using dict_update_append [of kvs "[]"] by simp

text \<open>
  Claim C4, amended: when the primary decoder raises on the file at the path (expanded
  twice, as the source does; the exception is one of msgpack's, not \<open>Unmodelled\<close>), the
  legacy decoder is not tried and \<^verbatim>\<open>Persistent_Dict\<close> holds exactly what its constructor
  arguments gave it. If that mapping is made of \<^verbatim>\<open>None\<close>, booleans, integers, floats,
  strings, bytes, lists and dicts, with distinct \<^verbatim>\<open>str\<close> or \<^verbatim>\<open>bytes\<close> keys and sizes within
  the limit of msgpack (\<open>modelled\<close> and \<open>plain\<close>), then after a \<^verbatim>\<open>save()\<close> that returned normally
  \<open>load_object\<close> with \<^verbatim>\<open>allow_legacy=False\<close> reads that mapping back.
\<close>

theorem persistent_dict_no_legacy:
  assumes "files env (expanduser env (expanduser env file_path)) = Some b"
    and "msgpack_loads load_opts b = Inl e" and "e \<noteq> Unmodelled"
  shows "Persistent_Dict_init env file_path init
           = Inr \<lparr>pd_file_path = expanduser env file_path, pd_items = init\<rparr>
       \<and> (modelled (PDict init) \<and> plain (PDict init)
            \<and> fst (Persistent_Dict_save env \<lparr>pd_file_path = expanduser env file_path, pd_items = init\<rparr>) = None
          \<longrightarrow> load_object
                (snd (Persistent_Dict_save env \<lparr>pd_file_path = expanduser env file_path, pd_items = init\<rparr>))
                (expanduser env file_path) False
              = Inr (PDict init))"
proof (intro conjI impI)
  from assms show "Persistent_Dict_init env file_path init
           = Inr \<lparr>pd_file_path = expanduser env file_path, pd_items = init\<rparr>"
    by (simp add: Persistent_Dict_init_def load_object_def Let_def)
  let ?self = "\<lparr>pd_file_path = expanduser env file_path, pd_items = init\<rparr>"
  assume a: "modelled (PDict init) \<and> plain (PDict init) \<and> fst (Persistent_Dict_save env ?self) = None"
  then have "distinct (map fst init)" by simp
  then have d: "dict_update [] init = init" by (rule dict_update_distinct)
  have s: "Persistent_Dict_save env ?self = save_object env (PDict init) (expanduser env file_path)"
    by (simp add: Persistent_Dict_save_def d)
  from a have "modelled (PDict init)" "plain (PDict init)"
    "fst (save_object env (PDict init) (expanduser env file_path)) = None"
    unfolding s by blast+
  from load_after_save_plain [OF this] show "load_object (snd (Persistent_Dict_save env ?self))
      (expanduser env file_path) False = Inr (PDict init)"
    unfolding s .
qed

theorem persistent_dict_no_legacy_witness:
  "msgpack_loads load_opts
     [0x80, 0x03, 0x7d, 0x71, 0x00, 0x58, 0x01, 0x00, 0x00, 0x00, 0x61, 0x71, 0x01, 0x4b, 0x01, 0x73, 0x2e]
     = Inl ExtraData
   \<and> Persistent_Dict_init legacy_env ''settings'' []
       = Inr \<lparr>pd_file_path = expanduser legacy_env ''settings'', pd_items = []\<rparr>
   \<and> load_object
        (snd (Persistent_Dict_save legacy_env
               \<lparr>pd_file_path = expanduser legacy_env ''settings'', pd_items = []\<rparr>))
        (expanduser legacy_env ''settings'') False
       = Inr (PDict [])"
proof -
  have f: "files legacy_env (expanduser legacy_env (expanduser legacy_env ''settings''))
      = Some [0x80, 0x03, 0x7d, 0x71, 0x00, 0x58, 0x01, 0x00, 0x00, 0x00, 0x61, 0x71, 0x01, 0x4b, 0x01, 0x73, 0x2e]"
    by (simp add: legacy_env_def)
  have ne: "ExtraData \<noteq> Unmodelled" by simp
  have h: "modelled (PDict []) \<and> plain (PDict [])
      \<and> fst (Persistent_Dict_save legacy_env
             \<lparr>pd_file_path = expanduser legacy_env ''settings'', pd_items = []\<rparr>) = None"
    by (simp add: Persistent_Dict_save_def dict_update_def save_object_def Let_def pack_eval
        max_len_def)
  from persistent_dict_no_legacy [OF f legacy_file_rejected ne, of "[]"] h legacy_file_rejected
  show ?thesis by blast
qed

section \<open>Grouping by topic\<close>

lemma frame_body_frame:
  "frame_body w (PTuple [PStr t, PBytes p]) pd
     = Inr (add_record pd t (length (objs w)), snd (new_obj w p))"
  by (simp add: frame_body_def add_record_def Let_def Serialized_Dict_init_def new_obj_def)

lemma unpack_frame:
  assumes "frame_modelled f" and "frame_packed f = Inr b"
  shows "unpack loader_opts nest_limit (b @ rest) = Ok (PTuple [PStr (fst f), PBytes (snd f)]) rest"
proof -
  have r: "\<not> raw loader_opts" by (simp add: loader_opts_def)
  from assms(1) have m: "modelled (PTuple [PStr (fst f), PBytes (snd f)])"
    by (simp add: frame_modelled_def max_len_def)
  from assms(2) have p: "pack None nest_limit (PTuple [PStr (fst f), PBytes (snd f)]) = Inr b"
    by (simp add: frame_packed_def msgpack_dumps_def)
  from unpack_pack [OF r m p, of rest] show ?thesis
    by (simp add: mk_array_def loader_opts_def)
qed

lemma unpack_nothing: "unpack opts n [] = OutOfData"
  by (subst unpack.simps) (simp add: read_header_def)

lemma load_frames_packed:
  assumes "list_all frame_modelled fs" and "join_packed (map frame_packed fs) = Inr content"
  shows "load_frames w content pd = Inr (group_frames w fs pd)"
  using assms
proof (induction fs arbitrary: w content pd)
  case Nil
  then show ?case by (simp add: load_frames_end unpack_nothing)
next
  case (Cons f fs)
  from Cons.prems(2) obtain b content' where b: "frame_packed f = Inr b"
    and c': "join_packed (map frame_packed fs) = Inr content'" and e: "content = b @ content'"
    by (auto simp: join_packed_Cons)
  from Cons.prems(1) have fm: "frame_modelled f" and fms: "list_all frame_modelled fs" by simp_all
  have "load_frames w (b @ content') pd
      = load_frames (snd (new_obj w (snd f))) content' (add_record pd (fst f) (length (objs w)))"
    by (rule load_frames_step [OF unpack_frame [OF fm b] frame_body_frame])
  also have "\<dots> = Inr (group_frames (snd (new_obj w (snd f))) fs (add_record pd (fst f) (length (objs w))))"
    by (rule Cons.IH [OF fms c'])
  finally show ?case by (simp add: e)
qed

lemma group_records_Nil [simp]: "group_records n0 [] g = []"
  by (simp add: group_records_def)

lemma group_records_Cons:
  "group_records n0 (t # ts) g
     = (if first_segment t = g then [n0] else []) @ group_records (Suc n0) ts g"
proof -
  have u: "[0..<length (t # ts)] = 0 # map Suc [0..<length ts]"
    by (simp add: upt_conv_Cons map_Suc_upt del: upt_Suc)
  show ?thesis unfolding group_records_def u
    by (simp add: filter_map comp_def)
qed

lemma records_of_append_record:
  "records_of (append_record pd seg r) g
     = (if g = seg \<and> seg \<in> fst ` set pd then records_of pd g @ [r] else records_of pd g)"
proof (induction pd)
  case Nil
  then show ?case by (simp add: append_record_def records_of_def)
next
  case (Cons kv pd)
  have ih: "records_of (append_record pd seg r) g
     = (if g = seg \<and> seg \<in> fst ` set pd then records_of pd g @ [r] else records_of pd g)"
    by (rule Cons.IH)
  show ?case
  proof (cases "fst kv = g")
    case True
    then show ?thesis by (cases kv) (simp add: append_record_def records_of_def)
  next
    case False
    then have "records_of (append_record (kv # pd) seg r) g = records_of (append_record pd seg r) g"
      by (cases kv) (auto simp: append_record_def records_of_def)
    moreover from False have "records_of (kv # pd) g = records_of pd g"
      by (cases kv) (simp add: records_of_def)
    ultimately show ?thesis using False ih by auto
  qed
qed

lemma keys_append_record [simp]: "map fst (append_record pd seg r) = map fst pd"
  by (induction pd) (auto simp: append_record_def)

lemma records_of_new_key:
  "seg \<notin> fst ` set pd \<Longrightarrow> records_of (pd @ [(seg, [])]) g = records_of pd g"
  by (auto simp: records_of_def map_add_def image_iff split: option.splits dest: map_of_SomeD)

lemma add_record_spec:
  assumes "distinct (map fst pd)"
  shows "distinct (map fst (add_record pd t r))"
    and "set (map fst (add_record pd t r)) = insert (first_segment t) (set (map fst pd))"
    and "records_of (add_record pd t r) g
           = records_of pd g @ (if g = first_segment t then [r] else [])"
  using assms
  by (auto simp: add_record_def Let_def records_of_append_record records_of_new_key)

lemma group_frames_spec:
  assumes "distinct (map fst pd)"
  shows "objs (snd (group_frames w fs pd)) = objs w @ map (\<lambda>f. \<lparr>ser_data = snd f, data = PNone\<rparr>) fs
       \<and> cache_ref (snd (group_frames w fs pd)) = cache_ref w
       \<and> distinct (map fst (fst (group_frames w fs pd)))
       \<and> set (map fst (fst (group_frames w fs pd))) = set (map fst pd) \<union> set (map (first_segment \<circ> fst) fs)
       \<and> (\<forall>g. records_of (fst (group_frames w fs pd)) g
               = records_of pd g @ group_records (length (objs w)) (map fst fs) g)"
  using assms
proof (induction fs arbitrary: w pd)
  case Nil
  then show ?case by simp
next
  case (Cons f fs)
  let ?w1 = "snd (new_obj w (snd f))"
  let ?pd1 = "add_record pd (fst f) (length (objs w))"
  note a = add_record_spec [OF Cons.prems, of "fst f" "length (objs w)"]
  have w1: "objs ?w1 = objs w @ [\<lparr>ser_data = snd f, data = PNone\<rparr>]" "cache_ref ?w1 = cache_ref w"
    by (simp_all add: new_obj_def)
  note ih = Cons.IH [OF a(1), of ?w1]
  have g: "group_frames w (f # fs) pd = group_frames ?w1 fs ?pd1" by simp
  show ?case unfolding g
  proof (intro conjI allI)
    from ih show "objs (snd (group_frames ?w1 fs ?pd1))
        = objs w @ map (\<lambda>f. \<lparr>ser_data = snd f, data = PNone\<rparr>) (f # fs)"
      by (simp add: w1)
    from ih show "cache_ref (snd (group_frames ?w1 fs ?pd1)) = cache_ref w" by (simp add: w1)
    from ih show "distinct (map fst (fst (group_frames ?w1 fs ?pd1)))" by simp
    from ih a(2) show "set (map fst (fst (group_frames ?w1 fs ?pd1)))
        = set (map fst pd) \<union> set (map (first_segment \<circ> fst) (f # fs))"
      by auto
    fix g
    from ih have "records_of (fst (group_frames ?w1 fs ?pd1)) g
        = records_of ?pd1 g @ group_records (length (objs ?w1)) (map fst fs) g" by blast
    then show "records_of (fst (group_frames ?w1 fs ?pd1)) g
        = records_of pd g @ group_records (length (objs w)) (map fst (f # fs)) g"
      by (simp add: a(3) w1 group_records_Cons)
  qed
qed

text \<open>
  Claim C7. Let the file hold the frames \<open>fs\<close>, packed one after the other. Then
  \<open>load_pupil_data_file\<close> returns groups whose keys are the first dot-delimited segments
  of the topics, each once; the records of a group are those of the frames with that
  segment, in file order; and the records are new, undecoded instances over the payloads,
  in file order. For the topics \<^verbatim>\<open>gaze.0\<close>, \<^verbatim>\<open>gaze.1\<close>, \<^verbatim>\<open>pupil.0\<close> the result is the group
  \<^verbatim>\<open>gaze\<close> with the first two records and the group \<^verbatim>\<open>pupil\<close> with the third.
\<close>

theorem load_groups_by_first_segment:
  assumes "files env file_path = Some content"
    and "list_all frame_modelled fs" and "join_packed (map frame_packed fs) = Inr content"
  shows "\<exists>groups w'. load_pupil_data_file env w file_path = Inr (groups, w')
       \<and> distinct (map fst groups)
       \<and> set (map fst groups) = set (map (first_segment \<circ> fst) fs)
       \<and> (\<forall>g. records_of groups g = group_records (length (objs w)) (map fst fs) g)
       \<and> objs w' = objs w @ map (\<lambda>f. \<lparr>ser_data = snd f, data = PNone\<rparr>) fs
       \<and> cache_ref w' = cache_ref w"
proof -
  have l: "load_pupil_data_file env w file_path = Inr (group_frames w fs [])"
    using assms(1) load_frames_packed [OF assms(2,3)] by (simp add: load_pupil_data_file_def)
  have d: "distinct (map fst ([] :: (string \<times> nat list) list))" by simp
  from group_frames_spec [OF d, of w fs] have
    "distinct (map fst (fst (group_frames w fs [])))"
    "set (map fst (fst (group_frames w fs []))) = set (map (first_segment \<circ> fst) fs)"
    "\<forall>g. records_of (fst (group_frames w fs [])) g = group_records (length (objs w)) (map fst fs) g"
    "objs (snd (group_frames w fs [])) = objs w @ map (\<lambda>f. \<lparr>ser_data = snd f, data = PNone\<rparr>) fs"
    "cache_ref (snd (group_frames w fs [])) = cache_ref w"
    by (simp_all add: records_of_def)
  with l show ?thesis
    by (intro exI [of _ "fst (group_frames w fs [])"] exI [of _ "snd (group_frames w fs [])"]) simp
qed

lemma three_frames_packed: "join_packed (map frame_packed three_frames) = Inr three_frames_file"
  by (simp add: three_frames_def three_frames_file_def frame_packed_def pack_eval)

lemma three_frames_modelled: "list_all frame_modelled three_frames"
  by (simp add: three_frames_def frame_modelled_def string_bytes_def max_len_def)

lemma three_frames_groups:
  "group_frames initial_world three_frames []
     = ([(''gaze'', [0, 1]), (''pupil'', [2])],
        initial_world\<lparr>objs := [\<lparr>ser_data = [0x80], data = PNone\<rparr>,
                                \<lparr>ser_data = [0x80], data = PNone\<rparr>,
                                \<lparr>ser_data = [0x80], data = PNone\<rparr>]\<rparr>)"
  by (simp add: three_frames_def add_record_def first_segment_def append_record_def new_obj_def
      initial_world_def Let_def)

theorem load_groups_by_first_segment_witness:
  "load_pupil_data_file three_frames_env initial_world ''pupil_data''
     = Inr ([(''gaze'', [0, 1]), (''pupil'', [2])],
            initial_world\<lparr>objs := [\<lparr>ser_data = [0x80], data = PNone\<rparr>,
                                    \<lparr>ser_data = [0x80], data = PNone\<rparr>,
                                    \<lparr>ser_data = [0x80], data = PNone\<rparr>]\<rparr>)
   \<and> set (map fst [(''gaze'', [0, 1 :: nat]), (''pupil'', [2])])
       = set (map (first_segment \<circ> fst) three_frames)
   \<and> records_of [(''gaze'', [0, 1]), (''pupil'', [2])] ''gaze''
       = group_records (length (objs initial_world)) (map fst three_frames) ''gaze''
   \<and> records_of [(''gaze'', [0, 1]), (''pupil'', [2])] ''pupil''
       = group_records (length (objs initial_world)) (map fst three_frames) ''pupil''"
proof -
  have f: "files three_frames_env ''pupil_data'' = Some three_frames_file"
    by (simp add: three_frames_env_def)
  have l: "load_pupil_data_file three_frames_env initial_world ''pupil_data''
      = Inr (group_frames initial_world three_frames [])"
    using f load_frames_packed [OF three_frames_modelled three_frames_packed]
    by (simp add: load_pupil_data_file_def)
  from load_groups_by_first_segment [OF f three_frames_modelled three_frames_packed, of initial_world]
  obtain groups w' where
    g: "load_pupil_data_file three_frames_env initial_world ''pupil_data'' = Inr (groups, w')"
    and k: "set (map fst groups) = set (map (first_segment \<circ> fst) three_frames)"
    and r: "\<forall>g. records_of groups g
              = group_records (length (objs initial_world)) (map fst three_frames) g"
    by blast
  from g l have e: "groups = [(''gaze'', [0, 1]), (''pupil'', [2])]"
    by (simp add: three_frames_groups)
  from l k r show ?thesis unfolding e three_frames_groups by blast
qed

end
